theory Spec2Isabelle
  imports Main "HOL-Library.Word"
begin

section \<open>Machine types and failure values\<close>

text \<open>
  \<open>Slice::size_type\<close>, \<open>MemorySpace::size_type\<close> and \<open>std::size_t\<close> are unsigned
  64-bit integers; \<open>int\<close> is a signed 32-bit integer. Subtraction on \<open>size_type\<close>
  wraps around, \<open>(int)p\<close> keeps the low 32 bits and reads them as two's complement.
\<close>

type_synonym size_type = "64 word"
type_synonym cint = "32 word"

text \<open>
  \<open>AssertionFailure\<close>: an \<open>assert(...)\<close> of the source does not hold (builds with
  assertions enabled). \<open>UndefinedBehaviour\<close>: an unchecked read of a Slice or of a
  Kokkos view past its extent, which the source leaves undefined.
\<close>

datatype error = AssertionFailure | UndefinedBehaviour

definition to_int :: "size_type \<Rightarrow> cint" where
  "to_int p = ucast p"

definition to_size :: "cint \<Rightarrow> size_type" where
  "to_size i = scast i"

section \<open>Slices, points and the adapter of the spatial index\<close>

text \<open>
  A coordinate Slice holds three components per particle; \<open>x(i, d)\<close> reads component
  \<open>d\<close> of particle \<open>i\<close>.
\<close>

type_synonym 'v Slice = "('v \<times> 'v \<times> 'v) list"

fun component :: "'v \<times> 'v \<times> 'v \<Rightarrow> nat \<Rightarrow> 'v" where
  "component (a, b, c) d = (if d = 0 then a else if d = 1 then b else c)"

definition Slice_size :: "'v Slice \<Rightarrow> size_type" where
  "Slice_size x = of_nat (length x)"

definition Slice_at :: "'v Slice \<Rightarrow> size_type \<Rightarrow> nat \<Rightarrow> error + 'v" where
  "Slice_at x i d =
     (if unat i < length x then Inr (component (x ! unat i) d) else Inl UndefinedBehaviour)"

datatype 'f Point = Point 'f 'f 'f

datatype 'f Sphere = Sphere "'f Point" 'f

text \<open>
  \<open>struct SubsliceAndRadius\<close>, with the fields \<open>slice\<close>, \<open>first\<close>, \<open>last\<close> and
  \<open>radius\<close>.
\<close>

record 'v SubsliceAndRadius =
  slice_sr :: "'v Slice"
  first_sr :: size_type
  last_sr :: size_type
  radius_sr :: 'v

definition makePredicates ::
  "'v Slice \<Rightarrow> size_type \<Rightarrow> size_type \<Rightarrow> 'v \<Rightarrow> 'v SubsliceAndRadius" where
  "makePredicates x first last' radius =
     \<lparr>slice_sr = x, first_sr = first, last_sr = last', radius_sr = radius\<rparr>"

text \<open>
  \<open>Access<Slice, PrimitivesTag>\<close>. The conversion \<open>static_cast<float>\<close> is the
  parameter \<open>to_float\<close>.
\<close>

definition Primitives_size :: "'v Slice \<Rightarrow> size_type" where
  "Primitives_size x = Slice_size x"

definition Primitives_get :: "('v \<Rightarrow> 'f) \<Rightarrow> 'v Slice \<Rightarrow> size_type \<Rightarrow> error + 'f Point" where
  "Primitives_get to_float x i =
     (case Slice_at x i 0 of Inl e \<Rightarrow> Inl e | Inr a \<Rightarrow>
       (case Slice_at x i 1 of Inl e \<Rightarrow> Inl e | Inr b \<Rightarrow>
         (case Slice_at x i 2 of Inl e \<Rightarrow> Inl e | Inr c \<Rightarrow>
            Inr (Point (to_float a) (to_float b) (to_float c)))))"

text \<open>
  \<open>Access<SliceLike, PredicatesTag>\<close>. A predicate is the sphere of
  \<open>intersects(Sphere{point, x.radius})\<close> with the attached datum \<open>(int)i\<close>; the
  implicit conversion of \<open>x.radius\<close> to the radius type of the sphere is the
  parameter \<open>to_radius\<close>.
\<close>

type_synonym 'f Predicate = "'f Sphere \<times> cint"

definition attach :: "'f Sphere \<Rightarrow> cint \<Rightarrow> 'f Predicate" where
  "attach s d = (s, d)"

definition getData :: "'f Predicate \<Rightarrow> cint" where
  "getData q = snd q"

definition getPredicate :: "'f Predicate \<Rightarrow> 'f Sphere" where
  "getPredicate q = fst q"

definition Predicates_size :: "'v SubsliceAndRadius \<Rightarrow> size_type" where
  "Predicates_size x = last_sr x - first_sr x"

definition Predicates_get ::
  "('v \<Rightarrow> 'f) \<Rightarrow> ('v \<Rightarrow> 'f) \<Rightarrow> 'v SubsliceAndRadius \<Rightarrow> size_type \<Rightarrow> error + 'f Predicate" where
  "Predicates_get to_float to_radius x i =
     (if \<not> i < Predicates_size x then Inl AssertionFailure
      else (case Primitives_get to_float (slice_sr x) (first_sr x + i) of
          Inl e \<Rightarrow> Inl e
        | Inr point \<Rightarrow> Inr (attach (Sphere point (to_radius (radius_sr x))) (to_int i))))"

section \<open>The neighbor discriminator\<close>

datatype Tag = FullNeighborTag | HalfNeighborTag

text \<open>
  \<open>NeighborDiscriminatorCallback<Tag>::operator()\<close>: \<open>i\<close> is the index of the matched
  primitive, \<open>out\<close> the matches accepted so far for this query; \<open>out(i)\<close> appends.
\<close>

fun NeighborDiscriminatorCallback ::
  "Tag \<Rightarrow> 'f Predicate \<Rightarrow> cint \<Rightarrow> cint list \<Rightarrow> cint list" where
  "NeighborDiscriminatorCallback FullNeighborTag predicate i out =
     (if getData predicate \<noteq> i then out @ [i] else out)"
| "NeighborDiscriminatorCallback HalfNeighborTag predicate i out =
     (if sint (getData predicate) > sint i then out @ [i] else out)"

section \<open>The spatial index\<close>

text \<open>
  Running a list of fallible steps in order; the first failure is the result.
\<close>

fun collect :: "(error + 'a) list \<Rightarrow> error + 'a list" where
  "collect [] = Inr []"
| "collect (m # ms) =
     (case m of Inl e \<Rightarrow> Inl e
      | Inr a \<Rightarrow> (case collect ms of Inl e \<Rightarrow> Inl e | Inr as \<Rightarrow> Inr (a # as)))"

text \<open>
  Modelled from the spec: \<open>ArborX::intersects\<close> of a sphere query and a point is not
  part of the sources. The spec describes a query as "a sphere centered at that
  particle's coordinate with the given radius" that enumerates the points "within
  radius r", and says of the radius: "if radius \<le> 0, the result is a graph with every
  row-offset equal (zero neighbors everywhere)", "radius = 0 \<rightarrow> every row empty". So a
  sphere of radius 0 or less holds no point, and a sphere of positive radius holds the
  points whose distance from its centre is at most the radius; the comparison is
  written on the squares, without the square root. The arithmetic is that of an
  ordered ring.
\<close>

fun sqdist :: "('f::linordered_idom) Point \<Rightarrow> 'f Point \<Rightarrow> 'f" where
  "sqdist (Point a b c) (Point a' b' c') =
     (a - a') * (a - a') + (b - b') * (b - b') + (c - c') * (c - c')"

fun intersects :: "('f::linordered_idom) Sphere \<Rightarrow> 'f Point \<Rightarrow> bool" where
  "intersects (Sphere c r) q = (0 < r \<and> sqdist c q \<le> r * r)"

text \<open>
  Modelled from the spec: \<open>ArborX::BVH\<close> is not part of the sources. The spec
  treats it as a provided primitive, "build(points) \<rightarrow> index; query(index, region)
  \<rightarrow> matched point ids", where the point collection and the query collection are read
  through \<open>size()\<close> and \<open>get(i)\<close>. The index is the list of the points it was built
  from; a query visits the points in index order and hands every intersecting one to the
  callback; the offsets are the exclusive prefix sums of the numbers of accepted
  matches, one more entry than there are queries.
\<close>

definition BVH :: "('v \<Rightarrow> 'f) \<Rightarrow> 'v Slice \<Rightarrow> error + 'f Point list" where
  "BVH to_float x =
     collect (map (\<lambda>i. Primitives_get to_float x (of_nat i)) [0..<unat (Primitives_size x)])"

definition BVH_size :: "'f Point list \<Rightarrow> size_type" where
  "BVH_size bvh = of_nat (length bvh)"

definition traverse ::
  "('f::linordered_idom) Point list \<Rightarrow> ('f Predicate \<Rightarrow> cint \<Rightarrow> cint list \<Rightarrow> cint list)
     \<Rightarrow> 'f Predicate \<Rightarrow> cint list" where
  "traverse bvh callback q =
     foldl (\<lambda>out j. if intersects (getPredicate q) (bvh ! j) then callback q (of_nat j) out else out)
       [] [0..<length bvh]"

fun exclusive_scan :: "nat \<Rightarrow> nat list \<Rightarrow> nat list" where
  "exclusive_scan acc [] = [acc]"
| "exclusive_scan acc (c # cs) = acc # exclusive_scan (acc + c) cs"

definition BVH_query ::
  "('f::linordered_idom) Point list \<Rightarrow> ('v \<Rightarrow> 'f) \<Rightarrow> ('v \<Rightarrow> 'f) \<Rightarrow> 'v SubsliceAndRadius
     \<Rightarrow> ('f Predicate \<Rightarrow> cint \<Rightarrow> cint list \<Rightarrow> cint list) \<Rightarrow> error + (cint list \<times> cint list)" where
  "BVH_query bvh to_float to_radius predicates callback =
     (case collect (map (\<lambda>i. Predicates_get to_float to_radius predicates (of_nat i))
                        [0..<unat (Predicates_size predicates)]) of
        Inl e \<Rightarrow> Inl e
      | Inr queries \<Rightarrow>
          (let rows = map (traverse bvh callback) queries
           in Inr (concat rows, map of_nat (exclusive_scan 0 (map length rows)))))"

section \<open>The CRS graph and its construction\<close>

record CrsGraph =
  col_ind :: "cint list"
  row_ptr :: "cint list"
  shift :: size_type
  total :: size_type

definition makeNeighborList ::
  "('v \<Rightarrow> 'f::linordered_idom) \<Rightarrow> ('v \<Rightarrow> 'f) \<Rightarrow> Tag \<Rightarrow> 'v Slice \<Rightarrow> size_type \<Rightarrow> size_type \<Rightarrow> 'v
     \<Rightarrow> error + CrsGraph" where
  "makeNeighborList to_float to_radius tag coordinate_slice first last' radius =
     (case BVH to_float coordinate_slice of
        Inl e \<Rightarrow> Inl e
      | Inr bvh \<Rightarrow>
          (case BVH_query bvh to_float to_radius
                  (makePredicates coordinate_slice first last' radius)
                  (NeighborDiscriminatorCallback tag) of
             Inl e \<Rightarrow> Inl e
           | Inr (indices, offset) \<Rightarrow>
               Inr \<lparr>col_ind = indices, row_ptr = offset, shift = first, total = BVH_size bvh\<rparr>))"

section \<open>The neighbor list accessors\<close>

text \<open>Reading a Kokkos view of \<open>int\<close> at an index of type \<open>size_type\<close>.\<close>

definition View_at :: "cint list \<Rightarrow> size_type \<Rightarrow> error + cint" where
  "View_at v i = (if unat i < length v then Inr (v ! unat i) else Inl UndefinedBehaviour)"

definition View_size :: "cint list \<Rightarrow> size_type" where
  "View_size v = of_nat (length v)"

definition numNeighbor :: "CrsGraph \<Rightarrow> size_type \<Rightarrow> error + size_type" where
  "numNeighbor crs_graph p =
     (if \<not> (sint (to_int p) \<ge> 0 \<and> p < total crs_graph) then Inl AssertionFailure
      else (let p' = p - shift crs_graph in
        if sint (to_int p') < 0 \<or> p' \<ge> View_size (row_ptr crs_graph) - 1 then Inr 0
        else (case View_at (row_ptr crs_graph) (p' + 1) of
            Inl e \<Rightarrow> Inl e
          | Inr hi \<Rightarrow> (case View_at (row_ptr crs_graph) p' of
              Inl e \<Rightarrow> Inl e
            | Inr lo \<Rightarrow> Inr (to_size (hi - lo))))))"

definition getNeighbor :: "CrsGraph \<Rightarrow> size_type \<Rightarrow> size_type \<Rightarrow> error + size_type" where
  "getNeighbor crs_graph p n =
     (if \<not> (sint (to_int p) \<ge> 0 \<and> p < total crs_graph) then Inl AssertionFailure
      else (case numNeighbor crs_graph p of
          Inl e \<Rightarrow> Inl e
        | Inr k \<Rightarrow>
            (if \<not> n < k then Inl AssertionFailure
             else (let p' = p - shift crs_graph in
               (case View_at (row_ptr crs_graph) p' of
                  Inl e \<Rightarrow> Inl e
                | Inr lo \<Rightarrow> (case View_at (col_ind crs_graph) (to_size lo + n) of
                    Inl e \<Rightarrow> Inl e
                  | Inr c \<Rightarrow> Inr (to_size c)))))))"

text \<open>
  The invariants of the data model for a CRS graph: there is one row offset more than
  there are rows, the first offset is 0, the offsets do not decrease, the final offset
  is the number of column indices, every column index is a particle id below \<open>total\<close>,
  and the rows \<open>shift, ..., shift + numRows - 1\<close> are particle ids as well. Particle
  ids are stored as \<open>int\<close>, so \<open>total\<close> is at most \<open>2 ^ 31\<close>.
\<close>

definition numRows :: "CrsGraph \<Rightarrow> nat" where
  "numRows g = length (row_ptr g) - 1"

definition well_formed :: "CrsGraph \<Rightarrow> bool" where
  "well_formed g \<longleftrightarrow>
     row_ptr g \<noteq> [] \<and>
     unat (total g) \<le> 2 ^ 31 \<and>
     unat (shift g) + numRows g \<le> unat (total g) \<and>
     sint (row_ptr g ! 0) = 0 \<and>
     sorted (map sint (row_ptr g)) \<and>
     sint (row_ptr g ! numRows g) = int (length (col_ind g)) \<and>
     list_all (\<lambda>c. 0 \<le> sint c \<and> sint c < int (unat (total g))) (col_ind g)"

text \<open>The run of column indices that belongs to local row \<open>k\<close>.\<close>

definition row :: "CrsGraph \<Rightarrow> nat \<Rightarrow> cint list" where
  "row g k =
     take (nat (sint (row_ptr g ! Suc k)) - nat (sint (row_ptr g ! k)))
       (drop (nat (sint (row_ptr g ! k))) (col_ind g))"

text \<open>
  Notions used to state the properties: the point the adapter presents for a particle,
  and whether particle \<open>c\<close> lies in the query sphere of particle \<open>p\<close>.
\<close>

fun point_of :: "('v \<Rightarrow> 'f) \<Rightarrow> 'v \<times> 'v \<times> 'v \<Rightarrow> 'f Point" where
  "point_of to_float (a, b, c) = Point (to_float a) (to_float b) (to_float c)"

definition within ::
  "('v \<Rightarrow> 'f::linordered_idom) \<Rightarrow> ('v \<Rightarrow> 'f) \<Rightarrow> 'v Slice \<Rightarrow> 'v \<Rightarrow> nat \<Rightarrow> nat \<Rightarrow> bool" where
  "within to_float to_radius x radius p c =
     intersects (Sphere (point_of to_float (x ! p)) (to_radius radius)) (point_of to_float (x ! c))"

text \<open>The guards of the two callbacks, on the attached datum and the matched index.\<close>

fun accepts :: "Tag \<Rightarrow> cint \<Rightarrow> cint \<Rightarrow> bool" where
  "accepts FullNeighborTag d i = (d \<noteq> i)"
| "accepts HalfNeighborTag d i = (sint d > sint i)"

text \<open>
  The matches accepted for the query with local index \<open>i\<close>: the particles \<open>j\<close> in the
  sphere of particle \<open>first + i\<close> whose index passes the guard against the datum \<open>i\<close>.
\<close>

definition accepted_row ::
  "('v \<Rightarrow> 'f::linordered_idom) \<Rightarrow> ('v \<Rightarrow> 'f) \<Rightarrow> Tag \<Rightarrow> 'v Slice \<Rightarrow> nat \<Rightarrow> 'v \<Rightarrow> nat \<Rightarrow> cint list" where
  "accepted_row to_float to_radius tag x first radius i =
     map of_nat (filter (\<lambda>j. within to_float to_radius x radius (first + i) j
                              \<and> accepts tag (of_nat i) (of_nat j)) [0..<length x])"

section \<open>The SoA block\<close>

text \<open>
  Modelled from the spec: \<open>impl/Cabana_SoA.hpp\<close> (\<open>Cabana::Impl::SoA\<close>,
  \<open>Cabana::InnerArrayLayout\<close> and \<open>Cabana::Impl::getStructMember\<close>) is not part of the
  sources; only its unit test is. The spec describes a field by its scalar type and its
  shape, and the block as "a fixed-size, trivially-copyable aggregate containing, for
  each Field Descriptor in the caller's list, an inner array of length L whose element
  type replicates the field's shape". A scalar type enters through its size and its
  alignment in bytes.
\<close>

record Field =
  scalar_size :: nat
  scalar_align :: nat
  shape :: "nat list"

datatype Layout = LayoutRight | LayoutLeft

text \<open>
  A member of a plain struct: an array of scalars with the given extents, as in
  \<open>double _d3[4][2][3]\<close> of \<open>struct FooData\<close> in the unit test.
\<close>

record Member =
  elem_size :: nat
  elem_align :: nat
  extents :: "nat list"

definition sizeof_array :: "Member \<Rightarrow> nat" where
  "sizeof_array m = elem_size m * prod_list (extents m)"

text \<open>
  \<open>sizeof\<close>, which the unit test compares, by the layout rule of the C++ ABIs for a
  struct of arrays: every member is placed, in declaration order, at the next offset
  that is a multiple of its alignment; the struct is aligned as its most strictly
  aligned member, and its size is rounded up to that alignment.
\<close>

definition align_up :: "nat \<Rightarrow> nat \<Rightarrow> nat" where
  "align_up n a = n + (a - n mod a) mod a"

fun member_offsets :: "nat \<Rightarrow> Member list \<Rightarrow> nat list" where
  "member_offsets off [] = []"
| "member_offsets off (m # ms) =
     align_up off (elem_align m)
       # member_offsets (align_up off (elem_align m) + sizeof_array m) ms"

fun layout_end :: "nat \<Rightarrow> Member list \<Rightarrow> nat" where
  "layout_end off [] = off"
| "layout_end off (m # ms) = layout_end (align_up off (elem_align m) + sizeof_array m) ms"

definition alignof_struct :: "Member list \<Rightarrow> nat" where
  "alignof_struct ms = fold max (map elem_align ms) 1"

definition sizeof_struct :: "Member list \<Rightarrow> nat" where
  "sizeof_struct ms = align_up (layout_end 0 ms) (alignof_struct ms)"

text \<open>
  Modelled from the spec: the extents of the inner array of a field. In the unit test
  the view of \<open>double[4][2][3][2]\<close> at inner length 4 is indexed \<open>d6[2][1][1][1][1]\<close>
  under \<open>LayoutRight\<close>, the inner index first as in \<open>FooData\<close>, and
  \<open>d6[1][1][1][1][2]\<close> under \<open>LayoutLeft\<close>, the inner index last: the two index
  signatures of the spec, "[innerIndex][memberOwnShapeIndices...]" and
  "[memberOwnShapeIndices...][innerIndex]".
\<close>

fun inner_extents :: "Layout \<Rightarrow> nat \<Rightarrow> nat list \<Rightarrow> nat list" where
  "inner_extents LayoutRight L sh = L # sh"
| "inner_extents LayoutLeft L sh = sh @ [L]"

fun inner_indices :: "Layout \<Rightarrow> nat list \<Rightarrow> nat \<Rightarrow> nat list" where
  "inner_indices LayoutRight idx n = n # idx"
| "inner_indices LayoutLeft idx n = idx @ [n]"

definition SoA_member :: "Layout \<Rightarrow> nat \<Rightarrow> Field \<Rightarrow> Member" where
  "SoA_member layout L f =
     \<lparr>elem_size = scalar_size f, elem_align = scalar_align f,
      extents = inner_extents layout L (shape f)\<rparr>"

definition SoA :: "Layout \<Rightarrow> nat \<Rightarrow> Field list \<Rightarrow> Member list" where
  "SoA layout L fs = map (SoA_member layout L) fs"

definition sizeof_SoA :: "Layout \<Rightarrow> nat \<Rightarrow> Field list \<Rightarrow> nat" where
  "sizeof_SoA layout L fs = sizeof_struct (SoA layout L fs)"

text \<open>
  The hand-written struct of the unit test for a field list at array length \<open>L\<close>: one
  array \<open>T _d[L][shape...]\<close> per field, as \<open>struct FooData\<close> is for the seven fields
  of the test at \<open>L = 4\<close>.
\<close>

definition plain_struct :: "nat \<Rightarrow> Field list \<Rightarrow> Member list" where
  "plain_struct L fs =
     map (\<lambda>f. \<lparr>elem_size = scalar_size f, elem_align = scalar_align f,
                 extents = L # shape f\<rparr>) fs"

definition field_bytes :: "nat \<Rightarrow> Field \<Rightarrow> nat" where
  "field_bytes L f = L * prod_list (shape f) * scalar_size f"

definition total_bytes :: "nat \<Rightarrow> Field list \<Rightarrow> nat" where
  "total_bytes L fs = sum_list (map (field_bytes L) fs)"

text \<open>
  A placement of the members of a struct within \<open>e\<close> bytes, from offset \<open>off\<close> on: in
  order, without overlap, each at a multiple of its alignment.
\<close>

fun placed :: "nat \<Rightarrow> Member list \<Rightarrow> nat list \<Rightarrow> nat \<Rightarrow> bool" where
  "placed off [] [] e = (off \<le> e)"
| "placed off (m # ms) (p # ps) e =
     (off \<le> p \<and> p mod elem_align m = 0 \<and> placed (p + sizeof_array m) ms ps e)"
| "placed off [] (p # ps) e = False"
| "placed off (m # ms) [] e = False"

text \<open>The scalars of the test: \<open>double\<close>, \<open>int\<close>, \<open>float\<close> and \<open>unsigned\<close>.\<close>

definition double_field :: "nat list \<Rightarrow> Field" where
  "double_field sh = \<lparr>scalar_size = 8, scalar_align = 8, shape = sh\<rparr>"

definition int_field :: "nat list \<Rightarrow> Field" where
  "int_field sh = \<lparr>scalar_size = 4, scalar_align = 4, shape = sh\<rparr>"

definition float_field :: "nat list \<Rightarrow> Field" where
  "float_field sh = \<lparr>scalar_size = 4, scalar_align = 4, shape = sh\<rparr>"

definition unsigned_field :: "nat list \<Rightarrow> Field" where
  "unsigned_field sh = \<lparr>scalar_size = 4, scalar_align = 4, shape = sh\<rparr>"

text \<open>The field list of \<open>soa_layout_right_test\<close> and \<open>soa_layout_left_test\<close>.\<close>

definition test_fields :: "Field list" where
  "test_fields =
     [double_field [], int_field [], float_field [], double_field [2, 3],
      unsigned_field [5], float_field [3, 2, 2], double_field [4, 2, 3, 2]]"

text \<open>
  Modelled from the spec: the accessor \<open>getStructMember<i>\<close> and the memory of a block.
  A block is its bytes, by offset. The element of member \<open>k\<close> at shape indices \<open>idx\<close>
  and inner index \<open>n\<close> lies at the offset of the member plus the scalar size times the
  row-major position of the index tuple in the inner array ("the flattened memory address
  computed from indices", with the strides of the spec: the product of the extents to
  the right of an index position, times the scalar size). A scalar value is the list of
  its bytes.
\<close>

type_synonym block = "nat \<Rightarrow> 8 word"

fun flat_index :: "nat list \<Rightarrow> nat list \<Rightarrow> nat" where
  "flat_index (e # es) (i # is) = i * prod_list es + flat_index es is"
| "flat_index es is = 0"

definition valid_indices :: "nat list \<Rightarrow> nat list \<Rightarrow> bool" where
  "valid_indices es is = list_all2 (\<lambda>i e. i < e) is es"

definition member_address :: "Layout \<Rightarrow> nat \<Rightarrow> Field list \<Rightarrow> nat \<Rightarrow> nat list \<Rightarrow> nat \<Rightarrow> nat" where
  "member_address layout L fs k idx n =
     member_offsets 0 (SoA layout L fs) ! k
       + scalar_size (fs ! k)
           * flat_index (inner_extents layout L (shape (fs ! k))) (inner_indices layout idx n)"

definition store :: "block \<Rightarrow> nat \<Rightarrow> 8 word list \<Rightarrow> block" where
  "store b a v = (\<lambda>j. if a \<le> j \<and> j < a + length v then v ! (j - a) else b j)"

definition load :: "block \<Rightarrow> nat \<Rightarrow> nat \<Rightarrow> 8 word list" where
  "load b a n = map (\<lambda>j. b (a + j)) [0..<n]"

definition write_member ::
  "Layout \<Rightarrow> nat \<Rightarrow> Field list \<Rightarrow> block \<Rightarrow> nat \<Rightarrow> nat list \<Rightarrow> nat \<Rightarrow> 8 word list \<Rightarrow> block" where
  "write_member layout L fs b k idx n v = store b (member_address layout L fs k idx n) v"

definition read_member ::
  "Layout \<Rightarrow> nat \<Rightarrow> Field list \<Rightarrow> block \<Rightarrow> nat \<Rightarrow> nat list \<Rightarrow> nat \<Rightarrow> 8 word list" where
  "read_member layout L fs b k idx n =
     load b (member_address layout L fs k idx n) (scalar_size (fs ! k))"

text \<open>
  An access is valid when the member exists, the shape indices lie within the shape of
  the field and the inner index lies below the inner length.
\<close>

definition valid_access :: "nat \<Rightarrow> Field list \<Rightarrow> nat \<Rightarrow> nat list \<Rightarrow> nat \<Rightarrow> bool" where
  "valid_access L fs k idx n \<longleftrightarrow> k < length fs \<and> valid_indices (shape (fs ! k)) idx \<and> n < L"


lemma to_int_small: 
  assumes "unat p < 2^31" shows "sint (to_int p) = int (unat p)"
proof -
  have "int (unat p) < 2 ^ 31" using assms by (metis of_nat_less_iff of_nat_numeral of_nat_power)
  then have lt: "uint p < 2 ^ 31" by simp
  have ge: "- (2 ^ 31) \<le> uint p" 
    by (rule order_trans [of _ 0]) simp_all
  have "sint (to_int p) = signed_take_bit 31 (uint p)"
    unfolding to_int_def by (simp add: signed_ucast_eq)
  also have "\<dots> = uint p"
    using ge lt by (rule signed_take_bit_int_eq_self)
  finally show ?thesis by simp
qed

lemma to_size_nonneg: 
  assumes "0 \<le> sint i" shows "unat (to_size i) = nat (sint i)"
proof -
  have "sint i < 2 ^ 31" using sint_lt [of i] by simp
  also have "(2::int) ^ 31 < 2 ^ 64" by simp
  finally have lt: "sint i < 2 ^ LENGTH(64)" by simp
  have "uint (to_size i) = uint (word_of_int (sint i) :: 64 word)"
    unfolding to_size_def by (simp only: scast_eq)
  also have "\<dots> = take_bit LENGTH(64) (sint i)"
    by (rule uint_word_of_int_eq)
  also have "\<dots> = sint i"
    using assms lt by (rule take_bit_int_eq_self)
  finally show ?thesis by (simp only: unat_eq_nat_uint)
qed

lemma unat_size_minus1: 
  assumes "0 < n" "n < 2^64" shows "unat (of_nat n - 1 :: size_type) = n - 1"
proof -
  have "unat (of_nat n :: size_type) = n" using assms by (simp add: unat_of_nat)
  moreover have "(1 :: size_type) \<le> of_nat n"
    using assms by (simp add: word_le_nat_alt unat_of_nat)
  ultimately show ?thesis by (simp add: unat_sub)
qed

lemma unat_sub_wrap: "unat (p::size_type) < unat s \<Longrightarrow> unat (p - s) = 2^64 + unat p - unat s"
  by (simp add: unat_sub_if_size word_size)

lemma unat_sub_le: "unat s \<le> unat (p::size_type) \<Longrightarrow> unat (p - s) = unat p - unat s"
  by (simp add: unat_sub_if_size)

lemma sint_diff_nonneg:
  assumes "0 \<le> sint (lo::cint)" "sint lo \<le> sint (hi::cint)"
  shows "sint (hi - lo) = sint hi - sint lo"
proof -
  have hi: "sint hi < 2 ^ 31" using sint_lt [of hi] by simp
  have "sint (hi - lo) = signed_take_bit 31 (sint hi - sint lo)"
    by (simp add: sint_word_ariths)
  also have "\<dots> = sint hi - sint lo"
    using assms hi by (intro signed_take_bit_int_eq_self) linarith+
  finally show ?thesis .
qed

lemma numNeighbor_outside:
  assumes wf: "well_formed g" and p: "p < total g"
    and out: "unat p < unat (shift g) \<or> unat (shift g) + numRows g \<le> unat p"
  shows "numNeighbor g p = Inr 0"
proof -
  have n: "row_ptr g \<noteq> []" and t: "unat (total g) \<le> 2 ^ 31"
    and r: "unat (shift g) + numRows g \<le> unat (total g)"
    using wf by (simp_all add: well_formed_def)
  have pt: "unat p < unat (total g)" using p by (simp add: word_less_nat_alt)
  then have p31: "unat p < 2 ^ 31" using t by linarith
  have a: "0 \<le> sint (to_int p)" using to_int_small [OF p31] by simp
  have len: "0 < length (row_ptr g)" "length (row_ptr g) < 2 ^ 64"
    using n r t by (simp_all add: numRows_def)
  have sz: "unat (View_size (row_ptr g) - 1) = numRows g"
    unfolding View_size_def numRows_def by (rule unat_size_minus1 [OF len])
  have "numRows g \<le> unat (p - shift g)"
  proof (cases "unat p < unat (shift g)")
    case True
    have "unat (shift g) < 2 ^ 64" using unsigned_less [of "shift g", where 'a = nat] by simp
    then show ?thesis using r t pt by (simp add: unat_sub_wrap [OF True])
  next
    case False
    then show ?thesis using out by (simp add: unat_sub_le)
  qed
  then have "View_size (row_ptr g) - 1 \<le> p - shift g"
    by (simp add: word_le_nat_alt sz)
  then show ?thesis using a p by (simp add: numNeighbor_def Let_def)
qed


lemma numNeighbor_inside_facts:
  assumes wf: "well_formed g" and p: "p < total g"
    and inside: "unat (shift g) \<le> unat p" "unat p < unat (shift g) + numRows g"
  shows "0 \<le> sint (to_int p)"
    and "unat (p - shift g) = unat p - unat (shift g)"
    and "0 \<le> sint (to_int (p - shift g))"
    and "\<not> View_size (row_ptr g) - 1 \<le> p - shift g"
    and "unat (p - shift g + 1) = Suc (unat p - unat (shift g))"
    and "Suc (unat p - unat (shift g)) < length (row_ptr g)"
proof -
  have n: "row_ptr g \<noteq> []" and t: "unat (total g) \<le> 2 ^ 31"
    and r: "unat (shift g) + numRows g \<le> unat (total g)"
    using wf by (simp_all add: well_formed_def)
  have pt: "unat p < unat (total g)" using p by (simp add: word_less_nat_alt)
  then have p31: "unat p < 2 ^ 31" using t by linarith
  show "0 \<le> sint (to_int p)" using to_int_small [OF p31] by simp
  have len: "0 < length (row_ptr g)" "length (row_ptr g) < 2 ^ 64"
    using n r t by (simp_all add: numRows_def)
  have sz: "unat (View_size (row_ptr g) - 1) = numRows g"
    unfolding View_size_def numRows_def by (rule unat_size_minus1 [OF len])
  show k: "unat (p - shift g) = unat p - unat (shift g)"
    using inside by (simp add: unat_sub_le)
  have "unat (p - shift g) < 2 ^ 31" using k p31 by linarith
  from to_int_small [OF this] show "0 \<le> sint (to_int (p - shift g))" by simp
  show "\<not> View_size (row_ptr g) - 1 \<le> p - shift g"
    using inside by (simp add: word_le_nat_alt sz k)
  have "unat (p - shift g) + unat (1 :: size_type) < 2 ^ LENGTH(64)"
    using k p31 by simp
  then have "unat (p - shift g + 1) = unat (p - shift g) + unat (1 :: size_type)"
    by (simp only: unat_add_lem)
  then show "unat (p - shift g + 1) = Suc (unat p - unat (shift g))"
    using k by simp
  show "Suc (unat p - unat (shift g)) < length (row_ptr g)"
    using inside len by (simp add: numRows_def)
qed

lemma numNeighbor_inside:
  assumes wf: "well_formed g" and p: "p < total g"
    and inside: "unat (shift g) \<le> unat p" "unat p < unat (shift g) + numRows g"
  shows "numNeighbor g p =
    Inr (to_size (row_ptr g ! Suc (unat p - unat (shift g)) - row_ptr g ! (unat p - unat (shift g))))"
proof -
  note f = numNeighbor_inside_facts [OF wf p inside]
  have "unat p - unat (shift g) < length (row_ptr g)" using f(6) by simp
  then show ?thesis
    using f p by (simp add: numNeighbor_def Let_def View_at_def)
qed

lemma row_ptr_mono:
  assumes wf: "well_formed g" and "i \<le> j" "j < length (row_ptr g)"
  shows "sint (row_ptr g ! i) \<le> sint (row_ptr g ! j)"
proof -
  have "sorted (map sint (row_ptr g))" using wf by (simp add: well_formed_def)
  then have "map sint (row_ptr g) ! i \<le> map sint (row_ptr g) ! j"
    using assms(2,3) by (intro sorted_nth_mono) simp_all
  then show ?thesis using assms(2,3) by simp
qed

lemma row_ptr_bounds:
  assumes wf: "well_formed g" and "j < length (row_ptr g)"
  shows "0 \<le> sint (row_ptr g ! j)" and "sint (row_ptr g ! j) \<le> int (length (col_ind g))"
proof -
  have z: "sint (row_ptr g ! 0) = 0" and l: "sint (row_ptr g ! numRows g) = int (length (col_ind g))"
    using wf by (simp_all add: well_formed_def)
  show "0 \<le> sint (row_ptr g ! j)"
    using row_ptr_mono [OF wf _ assms(2), of 0] z by simp
  have "j \<le> numRows g" "numRows g < length (row_ptr g)"
    using assms(2) by (simp_all add: numRows_def)
  from row_ptr_mono [OF wf this] l show "sint (row_ptr g ! j) \<le> int (length (col_ind g))"
    by simp
qed

lemma length_row:
  assumes wf: "well_formed g" and k: "Suc k < length (row_ptr g)"
  shows "int (length (row g k)) = sint (row_ptr g ! Suc k) - sint (row_ptr g ! k)"
proof -
  have k': "k < length (row_ptr g)" using k by simp
  note lo = row_ptr_bounds [OF wf k'] and hi = row_ptr_bounds [OF wf k]
  have m: "sint (row_ptr g ! k) \<le> sint (row_ptr g ! Suc k)"
    using row_ptr_mono [OF wf _ k, of k] by simp
  show ?thesis using lo hi m by (simp add: row_def)
qed


lemma numNeighbor_value:
  assumes wf: "well_formed g" and p: "p < total g"
  shows "numNeighbor g p =
      Inr (if unat p < unat (shift g) \<or> unat (shift g) + numRows g \<le> unat p then 0
           else to_size (row_ptr g ! Suc (unat p - unat (shift g))
                          - row_ptr g ! (unat p - unat (shift g))))
    \<and> (unat (shift g) \<le> unat p \<and> unat p < unat (shift g) + numRows g \<longrightarrow>
         numNeighbor g p = Inr (of_nat (length (row g (unat p - unat (shift g))))))"
proof (cases "unat p < unat (shift g) \<or> unat (shift g) + numRows g \<le> unat p")
  case True
  then show ?thesis using numNeighbor_outside [OF wf p] by auto
next
  case False
  then have inside: "unat (shift g) \<le> unat p" "unat p < unat (shift g) + numRows g"
    by simp_all
  let ?k = "unat p - unat (shift g)"
  note f = numNeighbor_inside_facts [OF wf p inside]
  have k: "?k < length (row_ptr g)" using f(6) by simp
  note lo = row_ptr_bounds [OF wf k]
  have m: "sint (row_ptr g ! ?k) \<le> sint (row_ptr g ! Suc ?k)"
    using row_ptr_mono [OF wf _ f(6), of ?k] by simp
  have d: "sint (row_ptr g ! Suc ?k - row_ptr g ! ?k) = int (length (row g ?k))"
    using sint_diff_nonneg [OF lo(1) m] length_row [OF wf f(6)] by simp
  then have "unat (to_size (row_ptr g ! Suc ?k - row_ptr g ! ?k)) = length (row g ?k)"
    using to_size_nonneg [of "row_ptr g ! Suc ?k - row_ptr g ! ?k"] by simp
  then have "to_size (row_ptr g ! Suc ?k - row_ptr g ! ?k) = of_nat (length (row g ?k))"
    by (metis of_nat_unat ucast_id)
  then show ?thesis using numNeighbor_inside [OF wf p inside] False by simp
qed


text \<open>
  Claim C5. For a well-formed CRS graph and a particle id \<open>p\<close> below \<open>total\<close>,
  \<open>numNeighbor\<close> raises no error; it returns 0 when \<open>p\<close> lies outside
  \<open>[shift, shift + numRows)\<close>, and otherwise the difference
  \<open>row_ptr(p - shift + 1) - row_ptr(p - shift)\<close>, which is the number of column indices
  stored for \<open>p\<close>.
\<close>

theorem numNeighbor_spec:
  assumes "well_formed g" and "p < total g"
  shows "numNeighbor g p =
      Inr (if unat p < unat (shift g) \<or> unat (shift g) + numRows g \<le> unat p then 0
           else to_size (row_ptr g ! Suc (unat p - unat (shift g))
                          - row_ptr g ! (unat p - unat (shift g))))
    \<and> (unat (shift g) \<le> unat p \<and> unat p < unat (shift g) + numRows g \<longrightarrow>
         numNeighbor g p = Inr (of_nat (length (row g (unat p - unat (shift g))))))"
  using assms by (rule numNeighbor_value)

theorem numNeighbor_spec_witness:
  "well_formed \<lparr>col_ind = [0, 2, 1], row_ptr = [0, 2, 3, 3], shift = 1, total = 4\<rparr>
   \<and> numNeighbor \<lparr>col_ind = [0, 2, 1], row_ptr = [0, 2, 3, 3], shift = 1, total = 4\<rparr> 0 = Inr 0
   \<and> numNeighbor \<lparr>col_ind = [0, 2, 1], row_ptr = [0, 2, 3, 3], shift = 1, total = 4\<rparr> 1 = Inr 2
   \<and> row \<lparr>col_ind = [0, 2, 1], row_ptr = [0, 2, 3, 3], shift = 1, total = 4\<rparr> 0 = [0, 2]"
proof -
  let ?g = "\<lparr>col_ind = [0, 2, 1], row_ptr = [0, 2, 3, 3], shift = 1, total = 4 :: size_type\<rparr>"
  have wf: "well_formed ?g" by (simp add: well_formed_def numRows_def)
  have p0: "(0 :: size_type) < total ?g" and p1: "(1 :: size_type) < total ?g"
    by (simp_all add: word_less_nat_alt)
  have r: "row ?g 0 = [0, 2]" by (simp add: row_def)
  show ?thesis
    using wf r numNeighbor_spec [OF wf p0] numNeighbor_spec [OF wf p1]
    by (simp add: numRows_def to_size_def)
qed

lemma getNeighbor_inside:
  assumes wf: "well_formed g" and p: "p < total g"
    and inside: "unat (shift g) \<le> unat p" "unat p < unat (shift g) + numRows g"
    and n: "unat n < length (row g (unat p - unat (shift g)))"
  shows "nat (sint (row_ptr g ! (unat p - unat (shift g)))) + unat n < length (col_ind g)"
    and "unat (to_size (row_ptr g ! (unat p - unat (shift g))) + n) =
           nat (sint (row_ptr g ! (unat p - unat (shift g)))) + unat n"
    and "row g (unat p - unat (shift g)) ! unat n =
           col_ind g ! (nat (sint (row_ptr g ! (unat p - unat (shift g)))) + unat n)"
proof -
  let ?k = "unat p - unat (shift g)"
  let ?lo = "row_ptr g ! ?k"
  note f = numNeighbor_inside_facts [OF wf p inside]
  have k: "?k < length (row_ptr g)" using f(6) by simp
  note lo = row_ptr_bounds [OF wf k] and hi = row_ptr_bounds [OF wf f(6)]
  have len: "int (length (row g ?k)) = sint (row_ptr g ! Suc ?k) - sint ?lo"
    by (rule length_row [OF wf f(6)])
  show idx: "nat (sint ?lo) + unat n < length (col_ind g)"
    using n len lo hi by linarith
  have "int (length (col_ind g)) < 2 ^ 31"
    using wf sint_lt [of "row_ptr g ! numRows g"] by (simp add: well_formed_def)
  then have "length (col_ind g) < 2 ^ 31" by simp
  with idx have "nat (sint ?lo) + unat n < 2 ^ 31" by (rule less_trans)
  also have "(2::nat) ^ 31 < 2 ^ 64" by simp
  finally have "unat (to_size ?lo) + unat n < 2 ^ LENGTH(64)"
    using to_size_nonneg [OF lo(1)] by simp
  then have "unat (to_size ?lo + n) = unat (to_size ?lo) + unat n"
    by (simp only: unat_add_lem)
  then show "unat (to_size ?lo + n) = nat (sint ?lo) + unat n"
    using to_size_nonneg [OF lo(1)] by simp
  show "row g ?k ! unat n = col_ind g ! (nat (sint ?lo) + unat n)"
    using n idx by (simp add: row_def)
qed

text \<open>
  Claim C6. For a well-formed CRS graph and a particle id \<open>p\<close> below \<open>total\<close>:
  if \<open>n\<close> is below the neighbor count of \<open>p\<close>, the index \<open>row_ptr(p - shift) + n\<close>
  computed by \<open>getNeighbor\<close> lies within \<open>col_ind\<close> and the result is the \<open>n\<close>-th
  entry of the row of \<open>p\<close>; otherwise the assertion \<open>n < numNeighbor(crs_graph, p)\<close>
  of \<open>getNeighbor\<close> fails, which is the out-of-bounds condition of a build with
  assertions.
\<close>

theorem getNeighbor_spec:
  assumes wf: "well_formed g" and p: "p < total g"
  shows "\<exists>k. numNeighbor g p = Inr k \<and>
     (n < k \<longrightarrow>
        (let q = unat p - unat (shift g); idx = nat (sint (row_ptr g ! q)) + unat n
         in q < numRows g \<and> unat n < length (row g q) \<and>
            unat (to_size (row_ptr g ! q) + n) = idx \<and> idx < length (col_ind g) \<and>
            getNeighbor g p n = Inr (to_size (col_ind g ! idx)) \<and>
            col_ind g ! idx = row g q ! unat n)) \<and>
     (\<not> n < k \<longrightarrow> getNeighbor g p n = Inl AssertionFailure)"
proof (cases "unat p < unat (shift g) \<or> unat (shift g) + numRows g \<le> unat p")
  case True
  have nn: "numNeighbor g p = Inr 0" by (rule numNeighbor_outside [OF wf p True])
  have "\<not> n < 0" by simp
  then show ?thesis using nn by (simp add: getNeighbor_def)
next
  case False
  then have inside: "unat (shift g) \<le> unat p" "unat p < unat (shift g) + numRows g"
    by simp_all
  let ?q = "unat p - unat (shift g)"
  let ?K = "of_nat (length (row g ?q)) :: size_type"
  note f = numNeighbor_inside_facts [OF wf p inside]
  have nn: "numNeighbor g p = Inr ?K"
    using conjunct2 [OF numNeighbor_value [OF wf p]] inside by blast
  have q: "?q < length (row_ptr g)" using f(6) by simp
  have qr: "?q < numRows g" using inside by linarith
  have "int (length (row g ?q)) < 2 ^ 31"
    using length_row [OF wf f(6)] row_ptr_bounds(1) [OF wf q] sint_lt [of "row_ptr g ! Suc ?q"]
    by simp
  then have "length (row g ?q) < 2 ^ 31" by simp
  also have "(2::nat) ^ 31 < 2 ^ 64" by simp
  finally have uK: "unat ?K = length (row g ?q)" by (simp add: unat_of_nat)
  show ?thesis
  proof (cases "n < ?K")
    case True
    then have n: "unat n < length (row g ?q)" using uK by (simp add: word_less_nat_alt)
    note h = getNeighbor_inside [OF wf p inside n]
    have "getNeighbor g p n = Inr (to_size (col_ind g ! (nat (sint (row_ptr g ! ?q)) + unat n)))"
      using f(1) p nn True q h(1,2) f(2)
      by (simp add: getNeighbor_def Let_def View_at_def)
    then show ?thesis using nn True qr n h by (simp add: Let_def)
  next
    case False
    then show ?thesis using nn f(1) p by (simp add: getNeighbor_def)
  qed
qed

theorem getNeighbor_spec_witness:
  "numNeighbor \<lparr>col_ind = [0, 2, 1], row_ptr = [0, 2, 3, 3], shift = 1, total = 4\<rparr> 1 = Inr 2
   \<and> getNeighbor \<lparr>col_ind = [0, 2, 1], row_ptr = [0, 2, 3, 3], shift = 1, total = 4\<rparr> 1 1 = Inr 2
   \<and> getNeighbor \<lparr>col_ind = [0, 2, 1], row_ptr = [0, 2, 3, 3], shift = 1, total = 4\<rparr> 1 2
        = Inl AssertionFailure"
proof -
  let ?g = "\<lparr>col_ind = [0, 2, 1], row_ptr = [0, 2, 3, 3], shift = 1, total = 4 :: size_type\<rparr>"
  have wf: "well_formed ?g" by (simp add: well_formed_def numRows_def)
  have p: "(1 :: size_type) < total ?g" by (simp add: word_less_nat_alt)
  have k: "numNeighbor ?g 1 = Inr 2"
    by (simp add: numNeighbor_def to_int_def to_size_def View_size_def View_at_def
        word_le_nat_alt word_less_nat_alt)
  have lt: "(1 :: size_type) < 2" and ge: "\<not> (2 :: size_type) < 2"
    by (simp_all add: word_less_nat_alt)
  from getNeighbor_spec [OF wf p, of 1] k lt
  have a: "getNeighbor ?g 1 1 = Inr 2" by (simp add: Let_def to_size_def)
  from getNeighbor_spec [OF wf p, of 2] k ge
  have b: "getNeighbor ?g 1 2 = Inl AssertionFailure" by simp
  show ?thesis using k a b by simp
qed

lemma collect_map_Inr:
  "(\<And>a. a \<in> set xs \<Longrightarrow> f a = Inr (h a)) \<Longrightarrow> collect (map f xs) = Inr (map h xs)"
  by (induction xs) simp_all

lemma collect_Inr_length: "collect ms = Inr as \<Longrightarrow> length as = length ms"
  by (induction ms arbitrary: as) (auto split: sum.splits)

lemma collect_Inl:
  "\<lbrakk>\<And>m. m \<in> set ms \<Longrightarrow> m = Inl e \<or> (\<exists>a. m = Inr a); Inl e \<in> set ms\<rbrakk>
     \<Longrightarrow> collect ms = Inl e"
proof (induction ms)
  case Nil
  then show ?case by simp
next
  case (Cons m ms)
  show ?case
  proof (cases m)
    case (Inl e')
    then have "e' = e" using Cons.prems(1) [of m] by simp
    then show ?thesis using Inl by simp
  next
    case (Inr a)
    then have "Inl e \<in> set ms" using Cons.prems(2) by auto
    then have "collect ms = Inl e" using Cons.IH Cons.prems(1) by simp
    then show ?thesis using Inr by simp
  qed
qed

lemma Primitives_get_in_range:
  "unat i < length x \<Longrightarrow> Primitives_get tf x i = Inr (point_of tf (x ! unat i))"
  by (cases "x ! unat i") (simp add: Primitives_get_def Slice_at_def)

lemma Primitives_get_out_of_range:
  "\<not> unat i < length x \<Longrightarrow> Primitives_get tf x i = Inl UndefinedBehaviour"
  by (simp add: Primitives_get_def Slice_at_def)

lemma unat_of_nat64: "n < 2 ^ 64 \<Longrightarrow> unat (of_nat n :: size_type) = n"
  by (simp add: unat_of_nat)

lemma BVH_in_range:
  assumes "length x < 2 ^ 64"
  shows "BVH tf x = Inr (map (point_of tf) x)"
proof -
  have n: "unat (Primitives_size x) = length x"
    using assms by (simp add: Primitives_size_def Slice_size_def unat_of_nat64)
  have "collect (map (\<lambda>i. Primitives_get tf x (of_nat i)) [0..<length x])
      = Inr (map (\<lambda>i. point_of tf (x ! i)) [0..<length x])"
  proof (rule collect_map_Inr)
    fix i assume "i \<in> set [0..<length x]"
    then have i: "i < length x" by simp
    then have "i < 2 ^ 64" using assms by linarith
    then have "unat (of_nat i :: size_type) = i" by (rule unat_of_nat64)
    then show "Primitives_get tf x (of_nat i) = Inr (point_of tf (x ! i))"
      using i by (simp add: Primitives_get_in_range)
  qed
  moreover have "map (\<lambda>i. point_of tf (x ! i)) [0..<length x] = map (point_of tf) x"
    by (rule nth_equalityI) simp_all
  ultimately show ?thesis unfolding BVH_def n by (simp only:)
qed

lemma BVH_size_eq:
  assumes "BVH tf x = Inr bvh"
  shows "BVH_size bvh = Slice_size x"
proof -
  have "length bvh = unat (Primitives_size x)"
    using collect_Inr_length [OF assms [unfolded BVH_def]] by simp
  then show ?thesis
    by (simp add: BVH_size_def Primitives_size_def)
qed

lemma callback_accepts:
  "NeighborDiscriminatorCallback tag q i out = (if accepts tag (getData q) i then out @ [i] else out)"
  by (cases tag) simp_all

lemma foldl_callback:
  "foldl (\<lambda>out j. if P j then NeighborDiscriminatorCallback tag q (of_nat j) out else out) acc js
     = acc @ map of_nat (filter (\<lambda>j. P j \<and> accepts tag (getData q) (of_nat j)) js)"
  by (induction js arbitrary: acc) (simp_all add: callback_accepts)

lemma traverse_filter:
  "traverse bvh (NeighborDiscriminatorCallback tag) q =
     map of_nat (filter (\<lambda>j. intersects (getPredicate q) (bvh ! j)
                              \<and> accepts tag (getData q) (of_nat j)) [0..<length bvh])"
  unfolding traverse_def by (simp add: foldl_callback)

lemma to_int_of_nat:
  assumes "i < 2 ^ 64" shows "to_int (of_nat i) = (of_nat i :: cint)"
proof -
  have "unat (of_nat i :: size_type) = i" using assms by (simp add: unat_of_nat)
  then have "(of_nat i :: cint) = of_nat (unat (of_nat i :: size_type))" by simp
  also have "\<dots> = ucast (of_nat i :: size_type)" by (simp only: of_nat_unat)
  finally show ?thesis by (simp add: to_int_def)
qed

lemma Predicates_get_in_range:
  assumes r: "first \<le> last'" "unat last' \<le> length x" and i: "i < unat last' - unat first"
  shows "Predicates_get tf tr (makePredicates x first last' radius) (of_nat i) =
           Inr (Sphere (point_of tf (x ! (unat first + i))) (tr radius), of_nat i)"
proof -
  have l64: "unat last' < 2 ^ 64" using unsigned_less [of last', where 'a = nat] by simp
  have i64: "i < 2 ^ 64" using i l64 by linarith
  have ui: "unat (of_nat i :: size_type) = i" using i64 by (simp add: unat_of_nat)
  have sz: "unat (last' - first) = unat last' - unat first"
    using r(1) by (simp add: unat_sub)
  have lt: "(of_nat i :: size_type) < last' - first"
    using i by (simp add: word_less_nat_alt ui sz)
  have "unat first + unat (of_nat i :: size_type) < 2 ^ LENGTH(64)"
    using i l64 ui by simp
  then have "unat (first + of_nat i) = unat first + unat (of_nat i :: size_type)"
    by (simp only: unat_add_lem)
  then have u: "unat (first + of_nat i) = unat first + i" using ui by simp
  have "unat first + i < length x" using i r(2) by linarith
  then have "Primitives_get tf x (first + of_nat i) = Inr (point_of tf (x ! (unat first + i)))"
    using Primitives_get_in_range [of "first + of_nat i" x tf] u by simp
  then show ?thesis
    using lt by (simp add: Predicates_get_def makePredicates_def Predicates_size_def attach_def
        to_int_of_nat [OF i64])
qed

lemma makeNeighborList_in_range:
  assumes n: "length x < 2 ^ 64" and r: "first \<le> last'" "unat last' \<le> length x"
  shows "makeNeighborList tf tr tag x first last' radius =
     Inr \<lparr>col_ind = concat (map (accepted_row tf tr tag x (unat first) radius) [0..<unat last' - unat first]),
          row_ptr = map of_nat (exclusive_scan 0 (map length
             (map (accepted_row tf tr tag x (unat first) radius) [0..<unat last' - unat first]))),
          shift = first, total = Slice_size x\<rparr>"
proof -
  let ?m = "unat last' - unat first"
  let ?q = "\<lambda>i. (Sphere (point_of tf (x ! (unat first + i))) (tr radius), of_nat i :: cint)"
  have sz: "unat (Predicates_size (makePredicates x first last' radius)) = ?m"
    using r(1) by (simp add: Predicates_size_def makePredicates_def unat_sub)
  have c: "collect (map (\<lambda>i. Predicates_get tf tr (makePredicates x first last' radius) (of_nat i)) [0..<?m])
      = Inr (map ?q [0..<?m])"
    by (rule collect_map_Inr) (simp add: Predicates_get_in_range [OF r])
  have t: "traverse (map (point_of tf) x) (NeighborDiscriminatorCallback tag) (?q i)
      = accepted_row tf tr tag x (unat first) radius i" for i
    unfolding traverse_filter accepted_row_def within_def getPredicate_def getData_def
    by (rule arg_cong [where f = "map of_nat"], rule filter_cong) simp_all
  have q: "BVH_query (map (point_of tf) x) tf tr (makePredicates x first last' radius)
        (NeighborDiscriminatorCallback tag) =
      Inr (concat (map (accepted_row tf tr tag x (unat first) radius) [0..<?m]),
           map of_nat (exclusive_scan 0 (map length
             (map (accepted_row tf tr tag x (unat first) radius) [0..<?m]))))"
  proof -
    have rows: "map (traverse (map (point_of tf) x) (NeighborDiscriminatorCallback tag)) (map ?q [0..<?m])
        = map (accepted_row tf tr tag x (unat first) radius) [0..<?m]"
      by (simp add: t)
    show ?thesis
      unfolding BVH_query_def sz c by (simp only: Let_def rows sum.case)
  qed
  show ?thesis
    by (simp add: makeNeighborList_def BVH_in_range [OF n] q BVH_size_def Slice_size_def)
qed


lemma makeNeighborList_fields:
  assumes "makeNeighborList tf tr tag x first last' radius = Inr g"
  shows "shift g = first \<and> total g = Slice_size x"
proof (cases "BVH tf x")
  case (Inl e)
  then show ?thesis using assms by (simp add: makeNeighborList_def)
next
  case (Inr bvh)
  note sz = BVH_size_eq [OF Inr]
  show ?thesis
  proof (cases "BVH_query bvh tf tr (makePredicates x first last' radius)
                  (NeighborDiscriminatorCallback tag)")
    case (Inl e)
    then show ?thesis using assms Inr by (simp add: makeNeighborList_def)
  next
    case (Inr io)
    then show ?thesis using assms \<open>BVH tf x = Inr bvh\<close> sz
      by (cases io) (auto simp: makeNeighborList_def)
  qed
qed

text \<open>
  Claim C9. On a valid range \<open>makeNeighborList\<close> returns a graph, and whenever it
  returns a graph, for either tag, \<open>shift\<close> is \<open>first\<close> and \<open>total\<close> is the size of
  the whole coordinate slice, which is the number of primitives of the index.
\<close>

theorem makeNeighborList_shift_total:
  "(length x < 2 ^ 64 \<and> first \<le> last' \<and> unat last' \<le> length x \<longrightarrow>
      (\<exists>g. makeNeighborList tf tr tag x first last' radius = Inr g))
   \<and> (\<forall>g. makeNeighborList tf tr tag x first last' radius = Inr g \<longrightarrow>
         shift g = first \<and> total g = Slice_size x \<and> Slice_size x = Primitives_size x)"
  using makeNeighborList_in_range [of x first last' tf tr tag radius]
    makeNeighborList_fields [of tf tr tag x first last' radius]
  by (auto simp: Primitives_size_def)

theorem makeNeighborList_shift_total_witness:
  "length ([(0,0,0),(1,0,0),(2,0,0),(10,0,0)] :: int Slice) < 2 ^ 64
   \<and> (1 :: size_type) \<le> 3 \<and> unat (3 :: size_type) \<le> length ([(0,0,0),(1,0,0),(2,0,0),(10,0,0)] :: int Slice)
   \<and> makeNeighborList id id HalfNeighborTag ([(0,0,0),(1,0,0),(2,0,0),(10,0,0)] :: int Slice) 1 3 2
     = Inr \<lparr>col_ind = [0], row_ptr = [0, 0, 1], shift = 1, total = 4\<rparr>
   \<and> (\<exists>g. makeNeighborList id id HalfNeighborTag ([(0,0,0),(1,0,0),(2,0,0),(10,0,0)] :: int Slice) 1 3 2 = Inr g
          \<and> shift g = 1 \<and> total g = Slice_size ([(0,0,0),(1,0,0),(2,0,0),(10,0,0)] :: int Slice))"
proof -
  let ?x = "([(0,0,0),(1,0,0),(2,0,0),(10,0,0)] :: int Slice)"
  let ?g = "\<lparr>col_ind = [0], row_ptr = [0, 0, 1], shift = 1, total = 4 :: size_type\<rparr>"
  have h: "length ?x < 2 ^ 64 \<and> (1 :: size_type) \<le> 3 \<and> unat (3 :: size_type) \<le> length ?x"
    by (simp add: word_le_nat_alt)
  have e: "makeNeighborList id id HalfNeighborTag ?x 1 3 2 = Inr ?g" by code_simp
  from makeNeighborList_shift_total [of ?x 1 3 id id HalfNeighborTag 2] h
  have "\<exists>g. makeNeighborList id id HalfNeighborTag ?x 1 3 2 = Inr g
          \<and> shift g = 1 \<and> total g = Slice_size ?x"
    by blast
  then show ?thesis using h e by blast
qed

lemma Primitives_get_eq:
  "Primitives_get tf x i =
     (if unat i < length x then Inr (point_of tf (x ! unat i)) else Inl UndefinedBehaviour)"
  by (simp add: Primitives_get_in_range Primitives_get_out_of_range)

lemma point_of_components:
  "point_of tf t = Point (tf (component t 0)) (tf (component t 1)) (tf (component t 2))"
  by (cases t) simp

lemma point_of_cong:
  assumes "\<forall>d<3. tf (component s d) = tf (component t d)"
  shows "point_of tf s = point_of tf t"
proof -
  have "tf (component s 0) = tf (component t 0)" "tf (component s 1) = tf (component t 1)"
    "tf (component s 2) = tf (component t 2)"
    using assms by simp_all
  then show ?thesis by (simp only: point_of_components)
qed

lemma same_points_same_graph:
  assumes len: "length x = length y"
    and eq: "\<forall>k<length x. \<forall>d<3. tf (component (x ! k) d) = tf (component (y ! k) d)"
  shows "BVH tf x = BVH tf y"
    and "makeNeighborList tf tr tag x first last' radius
          = makeNeighborList tf tr tag y first last' radius"
proof -
  have g: "Primitives_get tf x = Primitives_get tf y"
  proof
    fix i
    show "Primitives_get tf x i = Primitives_get tf y i"
      using len eq point_of_cong [of tf "x ! unat i" "y ! unat i"]
      by (simp add: Primitives_get_eq)
  qed
  have s: "Primitives_size x = Primitives_size y"
    using len by (simp add: Primitives_size_def Slice_size_def)
  show b: "BVH tf x = BVH tf y" by (simp add: BVH_def g s)
  have "Predicates_get tf tr (makePredicates x first last' radius)
      = Predicates_get tf tr (makePredicates y first last' radius)"
    by (rule ext)
      (simp add: Predicates_get_def makePredicates_def Predicates_size_def g split: sum.splits)
  moreover have "Predicates_size (makePredicates x first last' radius)
      = Predicates_size (makePredicates y first last' radius)"
    by (simp add: makePredicates_def Predicates_size_def)
  ultimately have "BVH_query bvh tf tr (makePredicates x first last' radius) cb
      = BVH_query bvh tf tr (makePredicates y first last' radius) cb" for bvh cb
    by (simp add: BVH_query_def)
  then show "makeNeighborList tf tr tag x first last' radius
          = makeNeighborList tf tr tag y first last' radius"
    by (simp add: makeNeighborList_def b cong: sum.case_cong)
qed

lemma Predicates_get_centre:
  assumes "Predicates_get tf tr s i = Inr q"
  shows "\<exists>pt. Primitives_get tf (slice_sr s) (first_sr s + i) = Inr pt
           \<and> getPredicate q = Sphere pt (tr (radius_sr s))"
  using assms
  by (auto simp: Predicates_get_def attach_def getPredicate_def split: if_splits sum.splits)

text \<open>
  Claim C10. The point the adapter presents for particle \<open>i\<close> consists of the three
  components \<open>x(i,0)\<close>, \<open>x(i,1)\<close>, \<open>x(i,2)\<close>, each converted by \<open>to_float\<close>; the
  sphere of a query is centred at the point so presented for \<open>first + i\<close>; and two
  slices whose components agree after the conversion give the same index and the same
  neighbor list.
\<close>

theorem adapter_presents_converted_points:
  "(\<forall>a b c. Slice_at x i 0 = Inr a \<and> Slice_at x i 1 = Inr b \<and> Slice_at x i 2 = Inr c \<longrightarrow>
       Primitives_get to_float x i = Inr (Point (to_float a) (to_float b) (to_float c)))
   \<and> (\<forall>q. Predicates_get to_float to_radius s i = Inr q \<longrightarrow>
        (\<exists>pt. Primitives_get to_float (slice_sr s) (first_sr s + i) = Inr pt
           \<and> getPredicate q = Sphere pt (to_radius (radius_sr s))))
   \<and> (length x = length y
        \<and> (\<forall>k<length x. \<forall>d<3. to_float (component (x ! k) d) = to_float (component (y ! k) d)) \<longrightarrow>
        BVH to_float x = BVH to_float y
        \<and> makeNeighborList to_float to_radius tag x first last' radius
            = makeNeighborList to_float to_radius tag y first last' radius)"
proof (intro conjI allI impI)
  fix a b c
  assume "Slice_at x i 0 = Inr a \<and> Slice_at x i 1 = Inr b \<and> Slice_at x i 2 = Inr c"
  then show "Primitives_get to_float x i = Inr (Point (to_float a) (to_float b) (to_float c))"
    by (simp add: Primitives_get_def)
next
  fix q assume "Predicates_get to_float to_radius s i = Inr q"
  then show "\<exists>pt. Primitives_get to_float (slice_sr s) (first_sr s + i) = Inr pt
           \<and> getPredicate q = Sphere pt (to_radius (radius_sr s))"
    by (rule Predicates_get_centre)
next
  assume h: "length x = length y
        \<and> (\<forall>k<length x. \<forall>d<3. to_float (component (x ! k) d) = to_float (component (y ! k) d))"
  then show "BVH to_float x = BVH to_float y"
    using same_points_same_graph(1) [of x y to_float] by blast
  from h show "makeNeighborList to_float to_radius tag x first last' radius
            = makeNeighborList to_float to_radius tag y first last' radius"
    using same_points_same_graph(2) [of x y to_float] by blast
qed

theorem adapter_presents_converted_points_witness:
  "Slice_at ([(12, 7, 3), (40, 0, 0)] :: int Slice) 0 0 = Inr 12
   \<and> Slice_at ([(12, 7, 3), (40, 0, 0)] :: int Slice) 0 1 = Inr 7
   \<and> Slice_at ([(12, 7, 3), (40, 0, 0)] :: int Slice) 0 2 = Inr 3
   \<and> Primitives_get (\<lambda>v. v div 10 * 10) ([(12, 7, 3), (40, 0, 0)] :: int Slice) 0 = Inr (Point 10 0 0)
   \<and> Predicates_get (\<lambda>v. v div 10 * 10) id (makePredicates ([(12, 7, 3), (40, 0, 0)] :: int Slice) 0 2 35) 0
       = Inr (Sphere (Point 10 0 0) 35, 0)
   \<and> makeNeighborList (\<lambda>v. v div 10 * 10) id FullNeighborTag ([(12, 7, 3), (40, 0, 0)] :: int Slice) 0 2 35
       = makeNeighborList (\<lambda>v. v div 10 * 10) id FullNeighborTag ([(10, 1, 9), (45, 2, 8)] :: int Slice) 0 2 35"
proof -
  let ?tf = "\<lambda>v :: int. v div 10 * 10"
  let ?x = "([(12, 7, 3), (40, 0, 0)] :: int Slice)"
  let ?y = "([(10, 1, 9), (45, 2, 8)] :: int Slice)"
  let ?s = "makePredicates ?x 0 2 35"
  note t = adapter_presents_converted_points
    [of ?x 0 ?tf id ?s ?y FullNeighborTag 0 2 35]
  have r: "Slice_at ?x 0 0 = Inr 12 \<and> Slice_at ?x 0 1 = Inr 7 \<and> Slice_at ?x 0 2 = Inr 3"
    by (simp add: Slice_at_def)
  have p: "Primitives_get ?tf ?x 0 = Inr (Point 10 0 0)"
    using t r by simp
  have q: "Predicates_get ?tf id ?s 0 = Inr (Sphere (Point 10 0 0) 35, 0)"
    by code_simp
  have e: "length ?x = length ?y
     \<and> (\<forall>k<length ?x. \<forall>d<3. ?tf (component (?x ! k) d) = ?tf (component (?y ! k) d))"
    by (simp add: less_Suc_eq numeral_3_eq_3 numeral_2_eq_2)
  have m: "makeNeighborList ?tf id FullNeighborTag ?x 0 2 35
       = makeNeighborList ?tf id FullNeighborTag ?y 0 2 35"
    using t e by blast
  show ?thesis using r p q m by blast
qed


lemma reversed_range_size:
  assumes "last' < first"
  shows "unat (Predicates_size (makePredicates x first last' radius))
           = 2 ^ 64 - (unat first - unat last')"
    and "0 < unat (Predicates_size (makePredicates x first last' radius))"
proof -
  have lt: "unat last' < unat first" using assms by (simp add: word_less_nat_alt)
  have f: "unat first < 2 ^ 64" using unsigned_less [of first, where 'a = nat] by simp
  have "unat (last' - first) = 2 ^ 64 + unat last' - unat first"
    by (rule unat_sub_wrap [OF lt])
  then show "unat (Predicates_size (makePredicates x first last' radius))
           = 2 ^ 64 - (unat first - unat last')"
    using lt f by (simp add: Predicates_size_def makePredicates_def)
  then show "0 < unat (Predicates_size (makePredicates x first last' radius))"
    using f by simp
qed

lemma Predicates_get_no_assertion:
  assumes "i < unat (Predicates_size s)"
  shows "Predicates_get tf tr s (of_nat i) = Inl UndefinedBehaviour
         \<or> (\<exists>q. Predicates_get tf tr s (of_nat i) = Inr q)"
proof -
  have "unat (Predicates_size s) < 2 ^ 64"
    using unsigned_less [of "Predicates_size s", where 'a = nat] by simp
  then have "i < 2 ^ 64" using assms by linarith
  then have "unat (of_nat i :: size_type) = i" by (rule unat_of_nat64)
  then have "(of_nat i :: size_type) < Predicates_size s"
    using assms by (simp add: word_less_nat_alt)
  then show ?thesis
    by (simp add: Predicates_get_def Primitives_get_eq)
qed

lemma makeNeighborList_reversed_range:
  assumes r: "last' < first" and n: "length x < 2 ^ 64"
  shows "makeNeighborList tf tr tag x first last' radius = Inl UndefinedBehaviour"
proof -
  let ?s = "makePredicates x first last' radius"
  let ?n = "unat (Predicates_size ?s)"
  let ?ms = "map (\<lambda>i. Predicates_get tf tr ?s (of_nat i)) [0..<?n]"
  let ?i = "2 ^ 64 - 1 - unat first"
  have f: "unat first < 2 ^ 64" using unsigned_less [of first, where 'a = nat] by simp
  have sz: "?n = 2 ^ 64 - (unat first - unat last')" by (rule reversed_range_size(1) [OF r])
  have lt: "unat last' < unat first" using r by (simp add: word_less_nat_alt)
  have i: "?i < ?n" using f lt sz by linarith
  have i64: "?i < 2 ^ 64" by simp
  have ui: "unat (of_nat ?i :: size_type) = ?i" by (rule unat_of_nat64 [OF i64])
  have "unat first + unat (of_nat ?i :: size_type) < 2 ^ LENGTH(64)"
    using f ui by simp
  then have "unat (first + of_nat ?i) = unat first + unat (of_nat ?i :: size_type)"
    by (simp only: unat_add_lem)
  then have "unat (first + of_nat ?i) = 2 ^ 64 - 1" using ui f by simp
  then have "\<not> unat (first + of_nat ?i) < length x" using n by simp
  then have p: "Primitives_get tf x (first + of_nat ?i) = Inl UndefinedBehaviour"
    by (rule Primitives_get_out_of_range)
  have "(of_nat ?i :: size_type) < Predicates_size ?s"
    using i ui by (simp add: word_less_nat_alt)
  then have "Predicates_get tf tr ?s (of_nat ?i) = Inl UndefinedBehaviour"
    using p by (simp add: Predicates_get_def makePredicates_def)
  then have ex: "Inl UndefinedBehaviour \<in> set ?ms" using i by force
  have all: "m = Inl UndefinedBehaviour \<or> (\<exists>a. m = Inr a)" if "m \<in> set ?ms" for m
  proof -
    from that obtain j where j: "j < ?n" and m: "m = Predicates_get tf tr ?s (of_nat j)"
      by auto
    show ?thesis using Predicates_get_no_assertion [OF j, of tf tr] m by simp
  qed
  have "collect ?ms = Inl UndefinedBehaviour" using all ex by (rule collect_Inl)
  then show ?thesis
    by (simp add: makeNeighborList_def BVH_in_range [OF n] BVH_query_def)
qed

text \<open>
  Claim C7, as the code has it. With \<open>first > last\<close> nothing rejects the call: the
  number of queries is \<open>last - first\<close> modulo \<open>2 ^ 64\<close>, which is positive, the
  assertion \<open>i < size(x)\<close> holds for every local index below it, and the build reads the
  coordinate slice past its end.
\<close>

theorem reversed_range_not_rejected:
  assumes "last' < first" and "length x < 2 ^ 64"
  shows "unat (Predicates_size (makePredicates x first last' radius))
           = 2 ^ 64 - (unat first - unat last')
    \<and> 0 < unat (Predicates_size (makePredicates x first last' radius))
    \<and> (\<forall>i. i < unat (Predicates_size (makePredicates x first last' radius)) \<longrightarrow>
          Predicates_get to_float to_radius (makePredicates x first last' radius) (of_nat i)
            \<noteq> Inl AssertionFailure)
    \<and> makeNeighborList to_float to_radius tag x first last' radius = Inl UndefinedBehaviour"
proof (intro conjI allI impI)
  fix i assume "i < unat (Predicates_size (makePredicates x first last' radius))"
  from Predicates_get_no_assertion [OF this, of to_float to_radius]
  show "Predicates_get to_float to_radius (makePredicates x first last' radius) (of_nat i)
            \<noteq> Inl AssertionFailure"
    by auto
qed (rule reversed_range_size [OF assms(1)] makeNeighborList_reversed_range [OF assms])+

theorem reversed_range_not_rejected_witness:
  "(0 :: size_type) < 1 \<and> length ([(0,0,0),(1,0,0)] :: int Slice) < 2 ^ 64
   \<and> unat (Predicates_size (makePredicates ([(0,0,0),(1,0,0)] :: int Slice) 1 0 1)) = 18446744073709551615
   \<and> Predicates_get id id (makePredicates ([(0,0,0),(1,0,0)] :: int Slice) 1 0 1) (of_nat 0)
        \<noteq> Inl AssertionFailure
   \<and> makeNeighborList id id FullNeighborTag ([(0,0,0),(1,0,0)] :: int Slice) 1 0 1 = Inl UndefinedBehaviour"
proof -
  let ?x = "([(0,0,0),(1,0,0)] :: int Slice)"
  have a: "(0 :: size_type) < 1" by simp
  have b: "length ?x < 2 ^ 64" by simp
  note t = reversed_range_not_rejected [OF a b, of 1 id id FullNeighborTag]
  have "unat (Predicates_size (makePredicates ?x 1 0 1)) = 18446744073709551615"
    using t by simp
  moreover have "Predicates_get id id (makePredicates ?x 1 0 1) (of_nat 0) \<noteq> Inl AssertionFailure"
    using t by blast
  moreover have "makeNeighborList id id FullNeighborTag ?x 1 0 1 = Inl UndefinedBehaviour"
    using t by blast
  ultimately show ?thesis using a b by blast
qed

text \<open>
  Two particles, \<open>first = 1\<close>, \<open>last = 0\<close>: there are \<open>2 ^ 64 - 1\<close> queries, the
  query with local index 0 is built, and the failure is the read past the slice.
\<close>

theorem reversed_range_counterexample:
  "Predicates_size (makePredicates ([(0,0,0),(1,0,0)] :: int Slice) 1 0 1) = 18446744073709551615
   \<and> Predicates_get id id (makePredicates ([(0,0,0),(1,0,0)] :: int Slice) 1 0 1) 0
        = Inr (Sphere (Point 1 0 0) 1, 0)
   \<and> makeNeighborList id id FullNeighborTag ([(0,0,0),(1,0,0)] :: int Slice) 1 0 1 = Inl UndefinedBehaviour"
proof -
  let ?x = "([(0,0,0),(1,0,0)] :: int Slice)"
  have "Predicates_size (makePredicates ?x 1 0 1) = 18446744073709551615"
    by (simp add: Predicates_size_def makePredicates_def)
  moreover have "Predicates_get id id (makePredicates ?x 1 0 1) 0 = Inr (Sphere (Point 1 0 0) 1, 0)"
    by code_simp
  moreover have "makeNeighborList id id FullNeighborTag ?x 1 0 1 = Inl UndefinedBehaviour"
    by (rule makeNeighborList_reversed_range) simp_all
  ultimately show ?thesis by blast
qed


lemma exclusive_scan_length: "length (exclusive_scan a cs) = Suc (length cs)"
  by (induction cs arbitrary: a) simp_all

lemma exclusive_scan_nth:
  "k \<le> length cs \<Longrightarrow> exclusive_scan a cs ! k = a + sum_list (take k cs)"
proof (induction cs arbitrary: a k)
  case Nil
  then show ?case by simp
next
  case (Cons c cs)
  then show ?case by (cases k) simp_all
qed

lemma sum_list_take_le: "sum_list (take k (cs :: nat list)) \<le> sum_list cs"
proof -
  have "sum_list (take k cs) + sum_list (drop k cs) = sum_list cs"
    by (metis append_take_drop_id sum_list_append)
  then show ?thesis by linarith
qed

lemma sum_list_take_Suc:
  "k < length (cs :: nat list) \<Longrightarrow> sum_list (take (Suc k) cs) = sum_list (take k cs) + cs ! k"
  by (simp add: take_Suc_conv_app_nth)

lemma drop_concat:
  "drop (sum_list (map length (take k rows))) (concat rows) = concat (drop k rows)"
proof (induction rows arbitrary: k)
  case Nil
  then show ?case by simp
next
  case (Cons r rows)
  then show ?case by (cases k) simp_all
qed

lemma take_drop_concat:
  assumes "k < length rows"
  shows "take (length (rows ! k)) (drop (sum_list (map length (take k rows))) (concat rows))
           = rows ! k"
proof -
  have "drop k rows = rows ! k # drop (Suc k) rows"
    using assms by (simp add: Cons_nth_drop_Suc)
  then show ?thesis by (simp add: drop_concat)
qed

lemma sint_of_nat_small:
  assumes "n < 2 ^ 31" shows "sint (of_nat n :: cint) = int n"
proof -
  have lt: "int n < 2 ^ 31" using assms by simp
  have ge: "- (2 ^ 31) \<le> int n" by (rule order_trans [of _ 0]) simp_all
  have "sint (of_nat n :: cint) = signed_take_bit 31 (int n)"
    by (simp add: signed_of_nat)
  also have "\<dots> = int n" using ge lt by (rule signed_take_bit_int_eq_self)
  finally show ?thesis .
qed

lemma built_row:
  assumes s: "length (concat rows) < 2 ^ 31" and k: "k < length rows"
  shows "row \<lparr>col_ind = concat rows,
              row_ptr = map of_nat (exclusive_scan 0 (map length rows)),
              shift = f, total = t\<rparr> k = rows ! k"
proof -
  let ?ls = "map length rows"
  let ?S = "\<lambda>j. sum_list (take j ?ls)"
  have tot: "sum_list ?ls < 2 ^ 31" using s by (simp add: length_concat)
  have small: "?S j < 2 ^ 31" for j
    using sum_list_take_le [of j ?ls] tot by linarith
  have nth: "exclusive_scan 0 ?ls ! j = ?S j" if "j \<le> length rows" for j
    using that by (simp add: exclusive_scan_nth)
  have ptr: "sint (map of_nat (exclusive_scan 0 ?ls) ! j :: cint) = int (?S j)"
    if "j \<le> length rows" for j
    using that nth [OF that] sint_of_nat_small [OF small [of j]]
    by (simp add: exclusive_scan_length)
  have a: "nat (int (?S (Suc k))) - nat (int (?S k)) = length (rows ! k)"
    using k sum_list_take_Suc [of k ?ls] by simp
  have "take (length (rows ! k)) (drop (?S k) (concat rows)) = rows ! k"
    using take_drop_concat [OF k] by (simp add: take_map)
  then show ?thesis
    using k a by (simp add: row_def ptr)
qed

lemma count_list_map_filter:
  assumes "inj_on f (insert c (set js))" and "distinct js"
  shows "count_list (map f (filter P js)) (f c) = (if c \<in> set js \<and> P c then 1 else 0)"
  using assms
proof (induction js)
  case Nil
  then show ?case by simp
next
  case (Cons j js)
  have inj: "inj_on f (insert c (set js))"
    using Cons.prems(1) by (rule inj_on_subset) auto
  have eq: "f j = f c \<longleftrightarrow> j = c"
    using Cons.prems(1) by (auto simp: inj_on_def)
  have "j \<notin> set js" "distinct js" using Cons.prems(2) by simp_all
  then show ?case using Cons.IH [OF inj] eq by auto
qed

lemma of_nat_cint_inj:
  assumes "a < 2 ^ 31" "b < 2 ^ 31" and "(of_nat a :: cint) = of_nat b"
  shows "a = b"
proof -
  have "int a = sint (of_nat a :: cint)" using assms(1) by (simp add: sint_of_nat_small)
  also have "\<dots> = int b" using assms(2,3) by (simp add: sint_of_nat_small)
  finally show ?thesis by simp
qed

lemma accepts_of_nat:
  assumes "i < 2 ^ 31" "c < 2 ^ 31"
  shows "accepts FullNeighborTag (of_nat i) (of_nat c) \<longleftrightarrow> c \<noteq> i"
    and "accepts HalfNeighborTag (of_nat i) (of_nat c) \<longleftrightarrow> c < i"
  using assms of_nat_cint_inj [of i c] by (auto simp: sint_of_nat_small)

lemma count_accepted_row:
  assumes n: "length x < 2 ^ 31" and c: "c < length x"
  shows "count_list (accepted_row tf tr tag x f radius i) (of_nat c) =
     (if within tf tr x radius (f + i) c \<and> accepts tag (of_nat i) (of_nat c) then 1 else 0)"
proof -
  have "inj_on (of_nat :: nat \<Rightarrow> cint) (insert c (set [0..<length x]))"
  proof (rule inj_onI)
    fix a b assume "a \<in> insert c (set [0..<length x])" "b \<in> insert c (set [0..<length x])"
      and e: "(of_nat a :: cint) = of_nat b"
    then have "a < 2 ^ 31" "b < 2 ^ 31" using n c by auto
    then show "a = b" using e by (rule of_nat_cint_inj)
  qed
  from count_list_map_filter [OF this, of "\<lambda>j. within tf tr x radius (f + i) j
      \<and> accepts tag (of_nat i) (of_nat j)"]
  show ?thesis using c by (simp add: accepted_row_def)
qed

lemma built_graph_row:
  assumes n: "length x < 2 ^ 31" and r: "first \<le> last'" "unat last' \<le> length x"
    and g: "makeNeighborList tf tr tag x first last' radius = Inr g"
    and s: "length (col_ind g) < 2 ^ 31"
    and i: "i < unat last' - unat first"
  shows "row g i = accepted_row tf tr tag x (unat first) radius i"
proof -
  let ?rows = "map (accepted_row tf tr tag x (unat first) radius) [0..<unat last' - unat first]"
  have "length x < 2 ^ 31" by (rule n)
  also have "(2 :: nat) ^ 31 < 2 ^ 64" by simp
  finally have n64: "length x < 2 ^ 64" .
  have e: "g = \<lparr>col_ind = concat ?rows,
           row_ptr = map of_nat (exclusive_scan 0 (map length ?rows)),
           shift = first, total = Slice_size x\<rparr>"
    using g makeNeighborList_in_range [OF n64 r, of tf tr tag radius] by simp
  have s': "length (concat ?rows) < 2 ^ 31" using s e by simp
  have k: "i < length ?rows" using i by simp
  show ?thesis
    unfolding e using built_row [OF s' k] i by simp
qed


lemma exclusive_scan_sorted: "sorted (exclusive_scan a cs)"
proof (induction cs arbitrary: a)
  case Nil
  then show ?case by simp
next
  case (Cons c cs)
  have "a \<le> y" if "y \<in> set (exclusive_scan (a + c) cs)" for y
  proof -
    from that obtain k where k: "k < length (exclusive_scan (a + c) cs)"
      and y: "y = exclusive_scan (a + c) cs ! k"
      by (auto simp: in_set_conv_nth)
    have "k \<le> length cs" using k by (simp add: exclusive_scan_length)
    then show ?thesis using y by (simp add: exclusive_scan_nth)
  qed
  then show ?case using Cons.IH by simp
qed

lemma exclusive_scan_bound:
  assumes "y \<in> set (exclusive_scan a cs)" shows "y \<le> a + sum_list cs"
proof -
  from assms obtain k where k: "k < length (exclusive_scan a cs)"
    and y: "y = exclusive_scan a cs ! k"
    by (auto simp: in_set_conv_nth)
  have "k \<le> length cs" using k by (simp add: exclusive_scan_length)
  then show ?thesis using y sum_list_take_le [of k cs] by (simp add: exclusive_scan_nth)
qed

lemma sorted_map_sint_of_nat:
  assumes "sorted ns" and "\<forall>n \<in> set ns. n < 2 ^ 31"
  shows "sorted (map sint (map of_nat ns :: cint list))"
proof -
  have eq: "map sint (map of_nat ns :: cint list) = map int ns"
    using assms(2) by (simp add: sint_of_nat_small)
  have "sorted (map int ns)"
    using assms(1) by (simp add: sorted_map)
  then show ?thesis unfolding eq .
qed

text \<open>
  The output contract of the build: on a valid range, when the particle ids and the
  number of stored neighbors fit an \<open>int\<close>, the graph returned by \<open>makeNeighborList\<close>
  satisfies the invariants of the data model, so the accessors apply to it.
\<close>

lemma makeNeighborList_well_formed:
  assumes n: "length x \<le> 2 ^ 31" and r: "first \<le> last'" "unat last' \<le> length x"
    and g: "makeNeighborList tf tr tag x first last' radius = Inr g"
    and s: "length (col_ind g) < 2 ^ 31"
  shows "well_formed g"
proof -
  let ?m = "unat last' - unat first"
  let ?rows = "map (accepted_row tf tr tag x (unat first) radius) [0..<?m]"
  let ?ls = "map length ?rows"
  have "length x \<le> 2 ^ 31" by (rule n)
  also have "(2 :: nat) ^ 31 < 2 ^ 64" by simp
  finally have n64: "length x < 2 ^ 64" .
  have e: "g = \<lparr>col_ind = concat ?rows, row_ptr = map of_nat (exclusive_scan 0 ?ls),
           shift = first, total = Slice_size x\<rparr>"
    using g makeNeighborList_in_range [OF n64 r, of tf tr tag radius] by simp
  have tot: "sum_list ?ls < 2 ^ 31" using s e by (simp add: length_concat)
  have small: "\<forall>y \<in> set (exclusive_scan 0 ?ls). y < 2 ^ 31"
    using exclusive_scan_bound [of _ 0 ?ls] tot by fastforce
  have rows: "numRows g = ?m" by (simp add: e numRows_def exclusive_scan_length)
  have ut: "unat (total g) = length x"
    using n64 by (simp add: e Slice_size_def unat_of_nat64)
  have le: "unat first \<le> unat last'" using r(1) by (simp add: word_le_nat_alt)
  have nth: "sint (row_ptr g ! j) = int (sum_list (take j ?ls))" if "j \<le> ?m" for j
  proof -
    have "exclusive_scan 0 ?ls ! j = sum_list (take j ?ls)"
      using that by (simp add: exclusive_scan_nth)
    moreover have "sum_list (take j ?ls) < 2 ^ 31"
      using sum_list_take_le [of j ?ls] tot by linarith
    ultimately show ?thesis
      using that by (simp add: e exclusive_scan_length sint_of_nat_small)
  qed
  have w1: "row_ptr g \<noteq> []"
    using exclusive_scan_length [of 0 ?ls] by (auto simp: e)
  have w2: "unat (total g) \<le> 2 ^ 31" using n ut by simp
  have w3: "unat (shift g) + numRows g \<le> unat (total g)"
    using le r(2) by (simp add: rows ut) (simp add: e)
  have w4: "sint (row_ptr g ! 0) = 0" using nth [of 0] by simp
  have w5: "sorted (map sint (row_ptr g))"
    unfolding e using sorted_map_sint_of_nat [OF exclusive_scan_sorted small] by simp
  have w6: "sint (row_ptr g ! numRows g) = int (length (col_ind g))"
    unfolding rows using nth [of ?m] by (simp add: e length_concat)
  have w7: "list_all (\<lambda>c. 0 \<le> sint c \<and> sint c < int (unat (total g))) (col_ind g)"
  proof -
    have "0 \<le> sint c \<and> sint c < int (length x)" if "c \<in> set (concat ?rows)" for c
    proof -
      from that obtain j where j: "j < length x" and c: "c = of_nat j"
        by (auto simp: accepted_row_def)
      have "j < 2 ^ 31" using j n by linarith
      then show ?thesis using j c by (simp add: sint_of_nat_small)
    qed
    then show ?thesis by (simp add: list_all_iff ut) (simp add: e)
  qed
  show ?thesis
    unfolding well_formed_def using w1 w2 w3 w4 w5 w6 w7 by blast
qed


lemma sqdist_sym: "sqdist p q = sqdist q p"
  by (cases p; cases q) (simp add: algebra_simps)

lemma within_sym: "within tf tr x radius p c = within tf tr x radius c p"
  by (simp add: within_def sqdist_sym)

lemma half_row_count:
  assumes n: "length x < 2 ^ 31" and l: "unat last' \<le> length x"
    and g: "makeNeighborList tf tr HalfNeighborTag x 0 last' radius = Inr g"
    and s: "length (col_ind g) < 2 ^ 31"
    and p: "p < unat last'" and c: "c < length x"
  shows "count_list (row g p) (of_nat c) = (if c < p \<and> within tf tr x radius p c then 1 else 0)"
proof -
  have p': "p < unat last' - unat (0 :: size_type)" using p by simp
  have r: "row g p = accepted_row tf tr HalfNeighborTag x (unat (0 :: size_type)) radius p"
    using built_graph_row [OF n _ l g s p'] by simp
  have "p < 2 ^ 31" "c < 2 ^ 31" using p l n c by linarith+
  then have a: "accepts HalfNeighborTag (of_nat p) (of_nat c) \<longleftrightarrow> c < p"
    by (rule accepts_of_nat(2))
  show ?thesis
    unfolding r using count_accepted_row [OF n c, of tf tr HalfNeighborTag 0 radius p] a
    by auto
qed

lemma half_callback_datum:
  assumes n: "length x < 2 ^ 31" and l: "unat last' \<le> length x"
    and p: "p < unat last'" and c: "c < length x"
    and q: "Predicates_get tf tr (makePredicates x 0 last' radius) (of_nat p) = Inr q"
  shows "NeighborDiscriminatorCallback HalfNeighborTag q (of_nat c) out
          = (if c < p then out @ [of_nat c] else out)"
proof -
  have p': "p < unat last' - unat (0 :: size_type)" using p by simp
  have "getData q = of_nat p"
    using Predicates_get_in_range [OF _ l p', of tf tr radius] q by (simp add: getData_def)
  moreover have "p < 2 ^ 31" "c < 2 ^ 31" using p l n c by linarith+
  ultimately show ?thesis by (simp add: sint_of_nat_small)
qed

text \<open>
  Claim C1, as the code has it. For the half variant on a range that starts at
  \<open>first = 0\<close>, where the datum attached to a query is the id of its owner: the
  callback accepts candidate \<open>c\<close> for owner \<open>p\<close> exactly when \<open>c < p\<close>. In the
  resulting graph \<open>c\<close> occurs in the row of \<open>p\<close> once if \<open>c < p\<close> and \<open>c\<close> lies in
  the sphere of \<open>p\<close>, and not at all otherwise; so a pair of queried particles within
  radius of each other is stored exactly once, in the row of the higher id.
\<close>

theorem half_neighbor_pairs:
  assumes "length x < 2 ^ 31" and "unat last' \<le> length x"
    and "makeNeighborList to_float to_radius HalfNeighborTag x 0 last' radius = Inr g"
    and "length (col_ind g) < 2 ^ 31"
    and "p < unat last'" and "c < length x"
  shows "(\<forall>q out. Predicates_get to_float to_radius (makePredicates x 0 last' radius) (of_nat p) = Inr q \<longrightarrow>
            NeighborDiscriminatorCallback HalfNeighborTag q (of_nat c) out
              = (if c < p then out @ [of_nat c] else out))
    \<and> count_list (row g p) (of_nat c)
         = (if c < p \<and> within to_float to_radius x radius p c then 1 else 0)
    \<and> (c < p \<and> within to_float to_radius x radius p c \<longrightarrow>
         within to_float to_radius x radius c p
         \<and> count_list (row g p) (of_nat c) = 1 \<and> count_list (row g c) (of_nat p) = 0)"
proof (intro conjI allI impI)
  fix q out
  assume "Predicates_get to_float to_radius (makePredicates x 0 last' radius) (of_nat p) = Inr q"
  from half_callback_datum [OF assms(1,2,5,6) this]
  show "NeighborDiscriminatorCallback HalfNeighborTag q (of_nat c) out
              = (if c < p then out @ [of_nat c] else out)" .
next
  show "count_list (row g p) (of_nat c)
         = (if c < p \<and> within to_float to_radius x radius p c then 1 else 0)"
    by (rule half_row_count [OF assms])
next
  assume h: "c < p \<and> within to_float to_radius x radius p c"
  then show "within to_float to_radius x radius c p" by (simp add: within_sym)
  show "count_list (row g p) (of_nat c) = 1"
    using half_row_count [OF assms] h by simp
  have c': "c < unat last'" and p': "p < length x" using h assms(2,5) by linarith+
  show "count_list (row g c) (of_nat p) = 0"
    using half_row_count [OF assms(1-4) c' p'] h by simp
qed

theorem half_neighbor_pairs_witness:
  "length ([(0,0,0),(1,0,0),(2,0,0),(10,0,0)] :: int Slice) < 2 ^ 31
   \<and> unat (4 :: size_type) \<le> length ([(0,0,0),(1,0,0),(2,0,0),(10,0,0)] :: int Slice)
   \<and> makeNeighborList id id HalfNeighborTag ([(0,0,0),(1,0,0),(2,0,0),(10,0,0)] :: int Slice) 0 4 1
        = Inr \<lparr>col_ind = [0, 1], row_ptr = [0, 0, 1, 2, 2], shift = 0, total = 4\<rparr>
   \<and> length (col_ind \<lparr>col_ind = [0, 1], row_ptr = [0, 0, 1, 2, 2], shift = 0, total = 4\<rparr>) < 2 ^ 31
   \<and> (2 :: nat) < unat (4 :: size_type)
   \<and> (1 :: nat) < length ([(0,0,0),(1,0,0),(2,0,0),(10,0,0)] :: int Slice)
   \<and> Predicates_get id id (makePredicates ([(0,0,0),(1,0,0),(2,0,0),(10,0,0)] :: int Slice) 0 4 1) (of_nat 2)
        = Inr (Sphere (Point 2 0 0) 1, 2)
   \<and> NeighborDiscriminatorCallback HalfNeighborTag (Sphere (Point 2 0 0) (1 :: int), 2) (of_nat 1) []
        = [of_nat 1]
   \<and> within id id ([(0,0,0),(1,0,0),(2,0,0),(10,0,0)] :: int Slice) 1 2 1
   \<and> count_list (row \<lparr>col_ind = [0, 1], row_ptr = [0, 0, 1, 2, 2], shift = 0, total = 4\<rparr> 2) (of_nat 1) = 1
   \<and> count_list (row \<lparr>col_ind = [0, 1], row_ptr = [0, 0, 1, 2, 2], shift = 0, total = 4\<rparr> 1) (of_nat 2) = 0"
proof -
  let ?x = "([(0,0,0),(1,0,0),(2,0,0),(10,0,0)] :: int Slice)"
  let ?g = "\<lparr>col_ind = [0, 1], row_ptr = [0, 0, 1, 2, 2], shift = 0, total = 4 :: size_type\<rparr>"
  have a: "length ?x < 2 ^ 31" by simp
  have b: "unat (4 :: size_type) \<le> length ?x" by simp
  have c: "makeNeighborList id id HalfNeighborTag ?x 0 4 1 = Inr ?g" by code_simp
  have d: "length (col_ind ?g) < 2 ^ 31" by simp
  have e: "(2 :: nat) < unat (4 :: size_type)" by simp
  have f: "(1 :: nat) < length ?x" by simp
  have q: "Predicates_get id id (makePredicates ?x 0 4 1) (of_nat 2) = Inr (Sphere (Point 2 0 0) 1, 2)"
    by code_simp
  have w: "within id id ?x 1 2 1" by code_simp
  note t = half_neighbor_pairs [OF a b c d e f]
  have "NeighborDiscriminatorCallback HalfNeighborTag (Sphere (Point 2 0 0) (1 :: int), 2) (of_nat 1) []
        = [of_nat 1]"
    using t q by simp
  moreover have "count_list (row ?g 2) (of_nat 1) = 1 \<and> count_list (row ?g 1) (of_nat 2) = 0"
    using t w by simp
  ultimately show ?thesis using a b c d e f q w by blast
qed

text \<open>
  Two particles at distance 1, radius 1, range \<open>[0, 2)\<close>: owner 0 does not accept
  candidate 1, owner 1 accepts candidate 0, and the graph stores the pair in row 1.
\<close>

theorem half_direction_counterexample:
  "Predicates_get id id (makePredicates ([(0,0,0),(1,0,0)] :: int Slice) 0 2 1) 0
      = Inr (Sphere (Point 0 0 0) 1, 0)
   \<and> NeighborDiscriminatorCallback HalfNeighborTag (Sphere (Point 0 0 0) (1 :: int), 0) 1 [] = []
   \<and> NeighborDiscriminatorCallback HalfNeighborTag (Sphere (Point 1 0 0) (1 :: int), 1) 0 [] = [0]
   \<and> makeNeighborList id id HalfNeighborTag ([(0,0,0),(1,0,0)] :: int Slice) 0 2 1
      = Inr \<lparr>col_ind = [0], row_ptr = [0, 0, 1], shift = 0, total = 2\<rparr>"
proof -
  have "Predicates_get id id (makePredicates ([(0,0,0),(1,0,0)] :: int Slice) 0 2 1) 0
      = Inr (Sphere (Point 0 0 0) 1, 0)"
    by code_simp
  moreover have "NeighborDiscriminatorCallback HalfNeighborTag (Sphere (Point 0 0 0) (1 :: int), 0) 1 [] = []"
    by (simp add: getData_def)
  moreover have "NeighborDiscriminatorCallback HalfNeighborTag (Sphere (Point 1 0 0) (1 :: int), 1) 0 [] = [0]"
    by (simp add: getData_def)
  moreover have "makeNeighborList id id HalfNeighborTag ([(0,0,0),(1,0,0)] :: int Slice) 0 2 1
      = Inr \<lparr>col_ind = [0], row_ptr = [0, 0, 1], shift = 0, total = 2\<rparr>"
    by code_simp
  ultimately show ?thesis by blast
qed

lemma full_row_count:
  assumes n: "length x < 2 ^ 31" and r: "first \<le> last'" "unat last' \<le> length x"
    and g: "makeNeighborList tf tr FullNeighborTag x first last' radius = Inr g"
    and s: "length (col_ind g) < 2 ^ 31"
    and i: "i < unat last' - unat first" and c: "c < length x"
  shows "count_list (row g i) (of_nat c)
          = (if c \<noteq> i \<and> within tf tr x radius (unat first + i) c then 1 else 0)"
proof -
  have "i < 2 ^ 31" "c < 2 ^ 31" using i r n c by linarith+
  then have a: "accepts FullNeighborTag (of_nat i) (of_nat c) \<longleftrightarrow> c \<noteq> i"
    by (rule accepts_of_nat(1))
  show ?thesis
    unfolding built_graph_row [OF n r g s i]
    using count_accepted_row [OF n c, of tf tr FullNeighborTag "unat first" radius i] a
    by auto
qed

text \<open>
  Claim C2. The full variant compares the matched index with the local query index, so
  with \<open>first = 1\<close> the query of particle 1 carries the datum 0: particle 1 is accepted
  as its own neighbor and its neighbor 0 is discarded.
\<close>

theorem full_self_match_first_gt_0:
  "Predicates_get id id (makePredicates ([(0,0,0),(1,0,0)] :: int Slice) 1 2 1) 0
      = Inr (Sphere (Point 1 0 0) 1, 0)
   \<and> NeighborDiscriminatorCallback FullNeighborTag (Sphere (Point 1 0 0) (1 :: int), 0) 1 [] = [1]
   \<and> NeighborDiscriminatorCallback FullNeighborTag (Sphere (Point 1 0 0) (1 :: int), 0) 0 [] = []
   \<and> makeNeighborList id id FullNeighborTag ([(0,0,0),(1,0,0)] :: int Slice) 1 2 1
      = Inr \<lparr>col_ind = [1], row_ptr = [0, 1], shift = 1, total = 2\<rparr>"
proof -
  have "Predicates_get id id (makePredicates ([(0,0,0),(1,0,0)] :: int Slice) 1 2 1) 0
      = Inr (Sphere (Point 1 0 0) 1, 0)"
    by code_simp
  moreover have "NeighborDiscriminatorCallback FullNeighborTag (Sphere (Point 1 0 0) (1 :: int), 0) 1 [] = [1]"
    by (simp add: getData_def)
  moreover have "NeighborDiscriminatorCallback FullNeighborTag (Sphere (Point 1 0 0) (1 :: int), 0) 0 [] = []"
    by (simp add: getData_def)
  moreover have "makeNeighborList id id FullNeighborTag ([(0,0,0),(1,0,0)] :: int Slice) 1 2 1
      = Inr \<lparr>col_ind = [1], row_ptr = [0, 1], shift = 1, total = 2\<rparr>"
    by code_simp
  ultimately show ?thesis by blast
qed


lemma accepted_row_nonpositive:
  assumes "tr radius \<le> 0"
  shows "accepted_row tf tr tag x f radius i = []"
  using assms by (simp add: accepted_row_def within_def)

lemma exclusive_scan_zeros: "exclusive_scan a (replicate n 0) = replicate (Suc n) a"
  by (induction n) simp_all

lemma nonpositive_radius_rows:
  assumes "tr radius \<le> 0"
  shows "map (accepted_row tf tr tag x f radius) js = replicate (length js) []"
  by (induction js) (simp_all add: accepted_row_nonpositive [of tr radius, OF assms])

lemma nonpositive_radius_graph:
  assumes "length x < 2 ^ 64" and "first \<le> last'" and "unat last' \<le> length x"
    and "tr radius \<le> 0"
  shows "makeNeighborList tf tr tag x first last' radius =
     Inr \<lparr>col_ind = [], row_ptr = replicate (Suc (unat last' - unat first)) 0,
          shift = first, total = Slice_size x\<rparr>"
  using assms(4)
  by (simp add: makeNeighborList_in_range [OF assms(1-3)] nonpositive_radius_rows
      exclusive_scan_zeros del: replicate.simps)

text \<open>
  Claim C8. On a valid range, if the radius handed to the query spheres is 0 or
  negative, \<open>makeNeighborList\<close> returns, for either variant, the graph without column
  indices in which every row offset is 0, whatever the coordinates are; the graph
  satisfies the invariants of the data model when the particle ids fit an \<open>int\<close>. The
  code passes the radius on unchanged and has no guard of its own: that a sphere of
  radius 0 or less matches no particle is the spec's description of the spatial index.
\<close>

theorem nonpositive_radius_empty:
  assumes "length x < 2 ^ 64" and "first \<le> last'" and "unat last' \<le> length x"
    and "to_radius radius \<le> 0"
  shows "makeNeighborList to_float to_radius tag x first last' radius =
       Inr \<lparr>col_ind = [], row_ptr = replicate (Suc (unat last' - unat first)) 0,
            shift = first, total = Slice_size x\<rparr>
    \<and> (length x \<le> 2 ^ 31 \<longrightarrow>
         well_formed \<lparr>col_ind = [], row_ptr = replicate (Suc (unat last' - unat first)) 0,
                      shift = first, total = Slice_size x\<rparr>)"
proof (intro conjI impI)
  let ?g = "\<lparr>col_ind = [], row_ptr = replicate (Suc (unat last' - unat first)) 0,
            shift = first, total = Slice_size x\<rparr>"
  show g: "makeNeighborList to_float to_radius tag x first last' radius = Inr ?g"
    using assms by (rule nonpositive_radius_graph)
  assume n: "length x \<le> 2 ^ 31"
  have "length (col_ind ?g) < 2 ^ 31" by simp
  with n assms(2,3) g show "well_formed ?g" by (rule makeNeighborList_well_formed)
qed

theorem nonpositive_radius_empty_witness:
  "length ([(0,0,0),(0,0,0),(1,0,0)] :: int Slice) < 2 ^ 64 \<and> (0 :: size_type) \<le> 3
   \<and> unat (3 :: size_type) \<le> length ([(0,0,0),(0,0,0),(1,0,0)] :: int Slice)
   \<and> id (0 :: int) \<le> 0 \<and> id (- 1 :: int) \<le> 0
   \<and> length ([(0,0,0),(0,0,0),(1,0,0)] :: int Slice) \<le> 2 ^ 31
   \<and> makeNeighborList id id FullNeighborTag ([(0,0,0),(0,0,0),(1,0,0)] :: int Slice) 0 3 0
       = Inr \<lparr>col_ind = [], row_ptr = [0, 0, 0, 0], shift = 0, total = 3\<rparr>
   \<and> makeNeighborList id id HalfNeighborTag ([(0,0,0),(0,0,0),(1,0,0)] :: int Slice) 0 3 0
       = Inr \<lparr>col_ind = [], row_ptr = [0, 0, 0, 0], shift = 0, total = 3\<rparr>
   \<and> makeNeighborList id id FullNeighborTag ([(0,0,0),(0,0,0),(1,0,0)] :: int Slice) 0 3 (- 1)
       = Inr \<lparr>col_ind = [], row_ptr = [0, 0, 0, 0], shift = 0, total = 3\<rparr>
   \<and> well_formed \<lparr>col_ind = [], row_ptr = [0, 0, 0, 0], shift = 0, total = 3\<rparr>"
proof -
  let ?x = "([(0,0,0),(0,0,0),(1,0,0)] :: int Slice)"
  have a: "length ?x < 2 ^ 64" by simp
  have b: "(0 :: size_type) \<le> 3" by simp
  have c: "unat (3 :: size_type) \<le> length ?x" by simp
  have d: "id (0 :: int) \<le> 0" by simp
  have d': "id (- 1 :: int) \<le> 0" by simp
  have n: "length ?x \<le> 2 ^ 31" by simp
  have e: "Suc (unat (3 :: size_type) - unat (0 :: size_type)) = 4" by simp
  have r: "replicate 4 (0 :: cint) = [0, 0, 0, 0]" by (simp add: numeral_eq_Suc)
  have s: "Slice_size ?x = 3" by (simp add: Slice_size_def)
  note f = nonpositive_radius_empty [of ?x 0 3 id 0 id FullNeighborTag, OF a b c d, unfolded e r s]
  note h = nonpositive_radius_empty [of ?x 0 3 id 0 id HalfNeighborTag, OF a b c d, unfolded e r s]
  note m = nonpositive_radius_empty [of ?x 0 3 id "- 1" id FullNeighborTag, OF a b c d', unfolded e r s]
  have w: "well_formed \<lparr>col_ind = [], row_ptr = [0, 0, 0, 0], shift = 0, total = 3\<rparr>"
    using f n by blast
  show ?thesis
    using a b c d d' n conjunct1 [OF f] conjunct1 [OF h] conjunct1 [OF m] w by blast
qed

lemma align_up_ge: "n \<le> align_up n a"
  by (simp add: align_up_def)

lemma align_up_zero: "align_up n 0 = n"
  by (simp add: align_up_def)

lemma align_up_dvd: "a dvd n \<Longrightarrow> align_up n a = n"
  by (auto simp: align_up_def)

lemma align_up_multiple:
  assumes "0 < a" shows "align_up n a = (if n mod a = 0 then n else (n div a + 1) * a)"
proof (cases "n mod a = 0")
  case True
  then show ?thesis by (simp add: align_up_def)
next
  case False
  have lt: "n mod a < a" using assms by simp
  then have "(a - n mod a) mod a = a - n mod a" using False by simp
  then have "align_up n a = n + (a - n mod a)" by (simp add: align_up_def)
  also have "\<dots> = (n div a * a + n mod a) + (a - n mod a)" by (simp only: div_mult_mod_eq)
  also have "\<dots> = n div a * a + (n mod a + (a - n mod a))" by (simp only: add.assoc)
  also have "\<dots> = n div a * a + a" using lt by simp
  finally show ?thesis using False by simp
qed

lemma align_up_mod: "0 < a \<Longrightarrow> align_up n a mod a = 0"
  by (simp add: align_up_multiple)

lemma align_up_least:
  assumes "n \<le> p" and "p mod a = 0"
  shows "align_up n a \<le> p"
proof (cases "a = 0")
  case True
  then show ?thesis using assms by (simp add: align_up_zero)
next
  case False
  then have a: "0 < a" by simp
  show ?thesis
  proof (cases "n mod a = 0")
    case True
    then show ?thesis using assms a by (simp add: align_up_multiple)
  next
    case False
    have p: "p = (p div a) * a" using assms(2) by (metis div_mult_mod_eq add.right_neutral)
    have "n div a < p div a"
    proof (rule ccontr)
      assume "\<not> n div a < p div a"
      then have "p div a \<le> n div a" by simp
      then have "(p div a) * a \<le> (n div a) * a" by (rule mult_le_mono1)
      then have "p \<le> (n div a) * a" using p by simp
      moreover have "(n div a) * a < n"
        using False by (metis div_mult_mod_eq less_add_same_cancel1 neq0_conv)
      ultimately show False using assms(1) by linarith
    qed
    then have "n div a + 1 \<le> p div a" by simp
    then have "(n div a + 1) * a \<le> (p div a) * a" by (rule mult_le_mono1)
    then show ?thesis using p False a by (simp add: align_up_multiple)
  qed
qed

lemma align_up_mono:
  assumes "n \<le> n'" shows "align_up n a \<le> align_up n' a"
proof (cases "a = 0")
  case True
  then show ?thesis using assms by (simp add: align_up_zero)
next
  case False
  then have "align_up n' a mod a = 0" by (simp add: align_up_mod)
  moreover have "n \<le> align_up n' a" using assms align_up_ge [of n' a] by linarith
  ultimately show ?thesis by (rule align_up_least [rotated])
qed

lemma layout_end_mono: "off \<le> off' \<Longrightarrow> layout_end off ms \<le> layout_end off' ms"
proof (induction ms arbitrary: off off')
  case Nil
  then show ?case by simp
next
  case (Cons m ms)
  have "align_up off (elem_align m) + sizeof_array m \<le> align_up off' (elem_align m) + sizeof_array m"
    using align_up_mono [OF Cons.prems] by simp
  then show ?case using Cons.IH by simp
qed

lemma layout_end_ge: "off + sum_list (map sizeof_array ms) \<le> layout_end off ms"
proof (induction ms arbitrary: off)
  case Nil
  then show ?case by simp
next
  case (Cons m ms)
  have "off + sizeof_array m + sum_list (map sizeof_array ms)
      \<le> align_up off (elem_align m) + sizeof_array m + sum_list (map sizeof_array ms)"
    using align_up_ge [of off "elem_align m"] by simp
  also have "\<dots> \<le> layout_end (align_up off (elem_align m) + sizeof_array m) ms"
    by (rule Cons.IH)
  finally show ?case by (simp add: add.assoc)
qed

lemma placed_least: "placed off ms ps e \<Longrightarrow> layout_end off ms \<le> e"
proof (induction off ms ps e rule: placed.induct)
  case (2 off m ms p ps e)
  then have p: "off \<le> p" "p mod elem_align m = 0" and r: "placed (p + sizeof_array m) ms ps e"
    by simp_all
  have "align_up off (elem_align m) \<le> p" using p by (rule align_up_least)
  then have "layout_end (align_up off (elem_align m) + sizeof_array m) ms
      \<le> layout_end (p + sizeof_array m) ms"
    by (intro layout_end_mono) simp
  also have "\<dots> \<le> e" using "2.IH" r by simp
  finally show ?case by simp
qed simp_all

lemma placed_own:
  assumes "\<forall>m \<in> set ms. 0 < elem_align m" and "layout_end off ms \<le> e"
  shows "placed off ms (member_offsets off ms) e"
  using assms
proof (induction ms arbitrary: off)
  case Nil
  then show ?case by simp
next
  case (Cons m ms)
  then show ?case by (simp add: align_up_ge align_up_mod)
qed

lemma layout_end_no_padding:
  assumes "\<forall>m \<in> set ms. elem_align m dvd A \<and> A dvd sizeof_array m" and "A dvd off"
  shows "layout_end off ms = off + sum_list (map sizeof_array ms) \<and> A dvd layout_end off ms"
  using assms
proof (induction ms arbitrary: off)
  case Nil
  then show ?case by simp
next
  case (Cons m ms)
  have "elem_align m dvd off" using Cons.prems by (auto intro: dvd_trans)
  then have a: "align_up off (elem_align m) = off" by (rule align_up_dvd)
  have "A dvd off + sizeof_array m" using Cons.prems by simp
  moreover have "\<forall>m \<in> set ms. elem_align m dvd A \<and> A dvd sizeof_array m"
    using Cons.prems by simp
  ultimately have c: "layout_end (off + sizeof_array m) ms
        = off + sizeof_array m + sum_list (map sizeof_array ms)
      \<and> A dvd layout_end (off + sizeof_array m) ms"
    by (intro Cons.IH)
  note ih = conjunct1 [OF c] conjunct2 [OF c]
  have e: "layout_end off (m # ms) = layout_end (off + sizeof_array m) ms"
    using a by simp
  show ?case unfolding e using ih by (simp add: add.assoc)
qed


lemma prod_list_inner_extents: "prod_list (inner_extents layout L sh) = L * prod_list sh"
  by (cases layout) simp_all

lemma sizeof_SoA_member: "sizeof_array (SoA_member layout L f) = field_bytes L f"
  by (simp add: sizeof_array_def SoA_member_def field_bytes_def prod_list_inner_extents)

lemma layout_end_SoA:
  "layout_end off (SoA layout L fs) = layout_end off (plain_struct L fs)"
proof (induction fs arbitrary: off)
  case Nil
  then show ?case by (simp add: SoA_def plain_struct_def)
next
  case (Cons f fs)
  have "sizeof_array (SoA_member layout L f)
      = sizeof_array \<lparr>elem_size = scalar_size f, elem_align = scalar_align f, extents = L # shape f\<rparr>"
    by (simp add: sizeof_SoA_member) (simp add: sizeof_array_def field_bytes_def)
  then show ?case using Cons.IH
    by (simp add: SoA_def plain_struct_def) (simp add: SoA_member_def)
qed

lemma elem_align_SoA: "map elem_align (SoA layout L fs) = map scalar_align fs"
  by (simp add: SoA_def SoA_member_def comp_def)

lemma alignof_SoA: "alignof_struct (SoA layout L fs) = alignof_struct (plain_struct L fs)"
  by (simp add: alignof_struct_def elem_align_SoA) (simp add: plain_struct_def comp_def)

lemma sizeof_array_SoA: "map sizeof_array (SoA layout L fs) = map (field_bytes L) fs"
  by (simp add: SoA_def sizeof_SoA_member)

lemma fold_max_ge: "(a :: nat) \<le> fold max xs a"
proof (induction xs arbitrary: a)
  case Nil
  then show ?case by simp
next
  case (Cons x xs)
  have "a \<le> max x a" by simp
  also have "\<dots> \<le> fold max xs (max x a)" by (rule Cons.IH)
  finally show ?case by simp
qed

lemma alignof_struct_pos: "0 < alignof_struct ms"
  using fold_max_ge [of 1 "map elem_align ms"] by (simp add: alignof_struct_def)

lemma SoA_size_plain: "sizeof_SoA layout L fs = sizeof_struct (plain_struct L fs)"
  by (simp add: sizeof_SoA_def sizeof_struct_def layout_end_SoA alignof_SoA)

lemma SoA_size_ge: "total_bytes L fs \<le> sizeof_SoA layout L fs"
proof -
  have "total_bytes L fs \<le> layout_end 0 (SoA layout L fs)"
    using layout_end_ge [of 0 "SoA layout L fs"] by (simp add: sizeof_array_SoA total_bytes_def)
  also have "\<dots> \<le> sizeof_SoA layout L fs"
    by (simp add: sizeof_SoA_def sizeof_struct_def align_up_ge)
  finally show ?thesis .
qed

lemma SoA_size_least:
  assumes "\<forall>f \<in> set fs. 0 < scalar_align f"
  shows "placed 0 (SoA layout L fs) (member_offsets 0 (SoA layout L fs)) (sizeof_SoA layout L fs)"
    and "sizeof_SoA layout L fs mod alignof_struct (SoA layout L fs) = 0"
    and "placed 0 (SoA layout L fs) ps e \<and> e mod alignof_struct (SoA layout L fs) = 0
          \<Longrightarrow> sizeof_SoA layout L fs \<le> e"
proof -
  let ?ms = "SoA layout L fs"
  have al: "\<forall>m \<in> set ?ms. 0 < elem_align m"
    using assms by (simp add: SoA_def SoA_member_def)
  have "layout_end 0 ?ms \<le> sizeof_SoA layout L fs"
    by (simp add: sizeof_SoA_def sizeof_struct_def align_up_ge)
  with al show "placed 0 ?ms (member_offsets 0 ?ms) (sizeof_SoA layout L fs)"
    by (rule placed_own)
  show "sizeof_SoA layout L fs mod alignof_struct ?ms = 0"
    by (simp add: sizeof_SoA_def sizeof_struct_def align_up_mod alignof_struct_pos)
  assume "placed 0 ?ms ps e \<and> e mod alignof_struct ?ms = 0"
  then have "layout_end 0 ?ms \<le> e" "e mod alignof_struct ?ms = 0"
    using placed_least [of 0 ?ms ps e] by simp_all
  then show "sizeof_SoA layout L fs \<le> e"
    unfolding sizeof_SoA_def sizeof_struct_def by (rule align_up_least)
qed

lemma SoA_size_no_padding:
  assumes "\<forall>f \<in> set fs. scalar_align f dvd alignof_struct (SoA layout L fs)
             \<and> alignof_struct (SoA layout L fs) dvd field_bytes L f"
  shows "sizeof_SoA layout L fs = total_bytes L fs"
proof -
  let ?ms = "SoA layout L fs"
  let ?A = "alignof_struct ?ms"
  have "\<forall>m \<in> set ?ms. elem_align m dvd ?A \<and> ?A dvd sizeof_array m"
    using assms by (auto simp: SoA_def sizeof_SoA_member) (simp add: SoA_member_def)
  moreover have "?A dvd 0" by simp
  ultimately have c: "layout_end 0 ?ms = 0 + sum_list (map sizeof_array ?ms) \<and> ?A dvd layout_end 0 ?ms"
    by (rule layout_end_no_padding)
  have "align_up (layout_end 0 ?ms) ?A = layout_end 0 ?ms"
    by (rule align_up_dvd [OF conjunct2 [OF c]])
  then show ?thesis
    using conjunct1 [OF c]
    by (simp add: sizeof_SoA_def sizeof_struct_def total_bytes_def sizeof_array_SoA)
qed

text \<open>
  Claim C3. For every field list, every inner length \<open>L\<close> and both layouts, the size
  of the SoA block is the size of the plain struct with one array \<open>T[L][shape...]\<close> per
  field. It is at least the sum over the fields of \<open>L * product(shape) * sizeof(scalar)\<close>,
  and it holds no padding beyond what alignment requires: the block places its members
  in order at aligned offsets, its size is a multiple of its alignment, and no such
  placement fits into fewer bytes. Where alignment requires no padding (every field's
  bytes are a multiple of the alignment of the block) the size is exactly that sum.
\<close>

theorem SoA_size_equivalence:
  "sizeof_SoA layout L fs = sizeof_struct (plain_struct L fs)
   \<and> total_bytes L fs \<le> sizeof_SoA layout L fs
   \<and> ((\<forall>f \<in> set fs. 0 < scalar_align f) \<longrightarrow>
        placed 0 (SoA layout L fs) (member_offsets 0 (SoA layout L fs)) (sizeof_SoA layout L fs)
        \<and> sizeof_SoA layout L fs mod alignof_struct (SoA layout L fs) = 0
        \<and> (\<forall>ps e. placed 0 (SoA layout L fs) ps e \<and> e mod alignof_struct (SoA layout L fs) = 0
              \<longrightarrow> sizeof_SoA layout L fs \<le> e))
   \<and> ((\<forall>f \<in> set fs. scalar_align f dvd alignof_struct (SoA layout L fs)
                     \<and> alignof_struct (SoA layout L fs) dvd field_bytes L f) \<longrightarrow>
        sizeof_SoA layout L fs = total_bytes L fs)"
proof (intro conjI impI allI)
  show "sizeof_SoA layout L fs = sizeof_struct (plain_struct L fs)" by (rule SoA_size_plain)
  show "total_bytes L fs \<le> sizeof_SoA layout L fs" by (rule SoA_size_ge)
next
  assume a: "\<forall>f \<in> set fs. 0 < scalar_align f"
  show "placed 0 (SoA layout L fs) (member_offsets 0 (SoA layout L fs)) (sizeof_SoA layout L fs)"
    by (rule SoA_size_least(1) [OF a])
  show "sizeof_SoA layout L fs mod alignof_struct (SoA layout L fs) = 0"
    by (rule SoA_size_least(2) [OF a])
  fix ps e
  assume "placed 0 (SoA layout L fs) ps e \<and> e mod alignof_struct (SoA layout L fs) = 0"
  then show "sizeof_SoA layout L fs \<le> e" by (rule SoA_size_least(3) [OF a])
next
  assume "\<forall>f \<in> set fs. scalar_align f dvd alignof_struct (SoA layout L fs)
                     \<and> alignof_struct (SoA layout L fs) dvd field_bytes L f"
  then show "sizeof_SoA layout L fs = total_bytes L fs" by (rule SoA_size_no_padding)
qed


theorem SoA_size_equivalence_witness:
  "sizeof_struct (plain_struct 4 test_fields) = 2064
   \<and> sizeof_SoA LayoutRight 4 test_fields = 2064
   \<and> sizeof_SoA LayoutLeft 4 test_fields = 2064
   \<and> total_bytes 4 test_fields = 2064
   \<and> member_offsets 0 (SoA LayoutLeft 4 test_fields) = [0, 32, 48, 64, 256, 336, 528]
   \<and> placed 0 (SoA LayoutLeft 4 test_fields) [0, 32, 48, 64, 256, 336, 528] 2064"
proof -
  have p: "sizeof_struct (plain_struct 4 test_fields) = 2064" by code_simp
  have a: "\<forall>f \<in> set test_fields. 0 < scalar_align f"
    by (simp add: test_fields_def double_field_def int_field_def float_field_def
        unsigned_field_def)
  have al: "alignof_struct (SoA LayoutLeft 4 test_fields) = 8" by code_simp
  have d: "\<forall>f \<in> set test_fields. scalar_align f dvd alignof_struct (SoA LayoutLeft 4 test_fields)
             \<and> alignof_struct (SoA LayoutLeft 4 test_fields) dvd field_bytes 4 f"
    unfolding al
    by (simp add: test_fields_def double_field_def int_field_def float_field_def
        unsigned_field_def field_bytes_def)
  have o: "member_offsets 0 (SoA LayoutLeft 4 test_fields) = [0, 32, 48, 64, 256, 336, 528]"
    by code_simp
  note r = SoA_size_equivalence [of LayoutRight 4 test_fields]
  note l = SoA_size_equivalence [of LayoutLeft 4 test_fields]
  have sr: "sizeof_SoA LayoutRight 4 test_fields = 2064" using r p by simp
  have sl: "sizeof_SoA LayoutLeft 4 test_fields = 2064" using l p by simp
  have t: "total_bytes 4 test_fields = 2064" using l d sl by simp
  have "placed 0 (SoA LayoutLeft 4 test_fields)
          (member_offsets 0 (SoA LayoutLeft 4 test_fields)) (sizeof_SoA LayoutLeft 4 test_fields)"
    using l a by blast
  then have pl: "placed 0 (SoA LayoutLeft 4 test_fields) [0, 32, 48, 64, 256, 336, 528] 2064"
    by (simp only: o sl)
  show ?thesis using p sr sl t o pl by blast
qed


text \<open>
  Alignment padding does occur: a \<open>char\<close> followed by a \<open>double\<close> at \<open>L = 1\<close> takes 16
  bytes, the sum of the fields is 9.
\<close>

lemma SoA_size_alignment_padding:
  "sizeof_SoA LayoutRight 1 [\<lparr>scalar_size = 1, scalar_align = 1, shape = []\<rparr>, double_field []] = 16
   \<and> total_bytes 1 [\<lparr>scalar_size = 1, scalar_align = 1, shape = []\<rparr>, double_field []] = 9"
  by code_simp

lemma load_store_same: "load (store b a v) a (length v) = v"
  by (rule nth_equalityI) (simp_all add: load_def store_def)

lemma load_store_other:
  assumes "a' + n \<le> a \<or> a + length v \<le> a'"
  shows "load (store b a v) a' n = load b a' n"
  using assms by (auto simp: load_def store_def)

lemma flat_index_less:
  "valid_indices es is \<Longrightarrow> flat_index es is < prod_list es"
  unfolding valid_indices_def
proof (induction "is" es rule: list_all2_induct)
  case Nil
  then show ?case by simp
next
  case (Cons i "is" e es)
  have "i * prod_list es + flat_index es is < i * prod_list es + prod_list es"
    using Cons.IH by simp
  also have "\<dots> = Suc i * prod_list es" by simp
  also have "\<dots> \<le> e * prod_list es"
    using Cons.hyps(1) by (intro mult_le_mono1) simp
  finally show ?case by simp
qed

lemma flat_index_inj:
  assumes "valid_indices es is" and "valid_indices es js"
    and "flat_index es is = flat_index es js"
  shows "is = js"
  using assms
proof (induction es arbitrary: "is" js)
  case Nil
  then show ?case by (simp add: valid_indices_def)
next
  case (Cons e es)
  from Cons.prems(1) obtain i is' where i: "is = i # is'" "i < e" "valid_indices es is'"
    by (auto simp: valid_indices_def list_all2_Cons2)
  from Cons.prems(2) obtain j js' where j: "js = j # js'" "j < e" "valid_indices es js'"
    by (auto simp: valid_indices_def list_all2_Cons2)
  let ?P = "prod_list es"
  have fi: "flat_index es is' < ?P" and fj: "flat_index es js' < ?P"
    by (rule flat_index_less [OF i(3)], rule flat_index_less [OF j(3)])
  have eq: "i * ?P + flat_index es is' = j * ?P + flat_index es js'"
    using Cons.prems(3) i(1) j(1) by simp
  have "(i * ?P + flat_index es is') div ?P = i" using fi by simp
  moreover have "(j * ?P + flat_index es js') div ?P = j" using fj by simp
  ultimately have ij: "i = j" using eq by simp
  then have "flat_index es is' = flat_index es js'" using eq by simp
  then have "is' = js'" using Cons.IH i(3) j(3) by simp
  then show ?case using i(1) j(1) ij by simp
qed

lemma valid_inner_indices:
  assumes "valid_indices sh idx" and "n < L"
  shows "valid_indices (inner_extents layout L sh) (inner_indices layout idx n)"
  using assms by (cases layout) (simp_all add: valid_indices_def list_all2_appendI)

lemma inner_indices_inj:
  "inner_indices layout idx n = inner_indices layout idx' n' \<Longrightarrow> idx = idx' \<and> n = n'"
  by (cases layout) simp_all

lemma member_offsets_length: "length (member_offsets off ms) = length ms"
  by (induction ms arbitrary: off) simp_all

lemma member_offsets_ge: "k < length ms \<Longrightarrow> off \<le> member_offsets off ms ! k"
proof (induction ms arbitrary: off k)
  case Nil
  then show ?case by simp
next
  case (Cons m ms)
  show ?case
  proof (cases k)
    case 0
    then show ?thesis by (simp add: align_up_ge)
  next
    case (Suc j)
    then have "j < length ms" using Cons.prems by simp
    from Cons.IH [OF this, of "align_up off (elem_align m) + sizeof_array m"]
    have "align_up off (elem_align m) \<le>
        member_offsets (align_up off (elem_align m) + sizeof_array m) ms ! j"
      by simp
    then show ?thesis using Suc align_up_ge [of off "elem_align m"] by simp
  qed
qed

lemma member_offsets_disjoint:
  "k < k' \<Longrightarrow> k' < length ms \<Longrightarrow>
     member_offsets off ms ! k + sizeof_array (ms ! k) \<le> member_offsets off ms ! k'"
proof (induction ms arbitrary: off k k')
  case Nil
  then show ?case by simp
next
  case (Cons m ms)
  from Cons.prems obtain j' where j': "k' = Suc j'" "j' < length ms"
    by (cases k') simp_all
  show ?case
  proof (cases k)
    case 0
    then show ?thesis
      using j' member_offsets_ge [OF j'(2), of "align_up off (elem_align m) + sizeof_array m"]
      by simp
  next
    case (Suc j)
    then have "j < j'" using Cons.prems(1) j'(1) by simp
    from Cons.IH [OF this j'(2)] show ?thesis using Suc j'(1) by simp
  qed
qed

lemma element_in_member:
  assumes "valid_access L fs k idx n"
  shows "member_offsets 0 (SoA layout L fs) ! k \<le> member_address layout L fs k idx n"
    and "member_address layout L fs k idx n + scalar_size (fs ! k)
           \<le> member_offsets 0 (SoA layout L fs) ! k + sizeof_array (SoA layout L fs ! k)"
proof -
  let ?ext = "inner_extents layout L (shape (fs ! k))"
  let ?flat = "flat_index ?ext (inner_indices layout idx n)"
  have k: "k < length fs" and v: "valid_indices (shape (fs ! k)) idx" and n: "n < L"
    using assms by (simp_all add: valid_access_def)
  show "member_offsets 0 (SoA layout L fs) ! k \<le> member_address layout L fs k idx n"
    by (simp add: member_address_def)
  have "?flat < prod_list ?ext"
    by (rule flat_index_less [OF valid_inner_indices [OF v n]])
  then have "Suc ?flat \<le> prod_list ?ext" by simp
  then have "scalar_size (fs ! k) * Suc ?flat \<le> scalar_size (fs ! k) * prod_list ?ext"
    by (rule mult_le_mono2)
  moreover have "sizeof_array (SoA layout L fs ! k) = scalar_size (fs ! k) * prod_list ?ext"
    using k by (simp add: SoA_def SoA_member_def sizeof_array_def)
  ultimately show "member_address layout L fs k idx n + scalar_size (fs ! k)
           \<le> member_offsets 0 (SoA layout L fs) ! k + sizeof_array (SoA layout L fs ! k)"
    by (simp add: member_address_def)
qed

lemma members_do_not_overlap:
  assumes a: "valid_access L fs k idx n" and a': "valid_access L fs k' idx' n'" and ne: "k' \<noteq> k"
  shows "member_address layout L fs k' idx' n' + scalar_size (fs ! k')
            \<le> member_address layout L fs k idx n
         \<or> member_address layout L fs k idx n + scalar_size (fs ! k)
            \<le> member_address layout L fs k' idx' n'"
proof -
  let ?ms = "SoA layout L fs"
  have k: "k < length ?ms" and k': "k' < length ?ms"
    using a a' by (simp_all add: valid_access_def SoA_def)
  note e = element_in_member [OF a, of layout] and e' = element_in_member [OF a', of layout]
  show ?thesis
  proof (cases "k < k'")
    case True
    from member_offsets_disjoint [OF True k', of 0] e(2) e'(1)
    show ?thesis by linarith
  next
    case False
    then have "k' < k" using ne by simp
    from member_offsets_disjoint [OF this k, of 0] e'(2) e(1)
    show ?thesis by linarith
  qed
qed

lemma elements_do_not_overlap:
  assumes a: "valid_access L fs k idx n" and a': "valid_access L fs k idx' n'"
    and ne: "(idx', n') \<noteq> (idx, n)"
  shows "member_address layout L fs k idx' n' + scalar_size (fs ! k)
            \<le> member_address layout L fs k idx n
         \<or> member_address layout L fs k idx n + scalar_size (fs ! k)
            \<le> member_address layout L fs k idx' n'"
proof -
  let ?ext = "inner_extents layout L (shape (fs ! k))"
  let ?f = "flat_index ?ext (inner_indices layout idx n)"
  let ?f' = "flat_index ?ext (inner_indices layout idx' n')"
  have v: "valid_indices ?ext (inner_indices layout idx n)"
    and v': "valid_indices ?ext (inner_indices layout idx' n')"
    using a a' by (simp_all add: valid_access_def valid_inner_indices)
  have "?f \<noteq> ?f'"
  proof
    assume "?f = ?f'"
    then have "inner_indices layout idx n = inner_indices layout idx' n'"
      by (rule flat_index_inj [OF v v'])
    then show False using inner_indices_inj [of layout idx n idx' n'] ne by simp
  qed
  then consider "Suc ?f \<le> ?f'" | "Suc ?f' \<le> ?f" by linarith
  then show ?thesis
  proof cases
    case 1
    then have "scalar_size (fs ! k) * Suc ?f \<le> scalar_size (fs ! k) * ?f'"
      by (rule mult_le_mono2)
    then show ?thesis by (simp add: member_address_def)
  next
    case 2
    then have "scalar_size (fs ! k) * Suc ?f' \<le> scalar_size (fs ! k) * ?f"
      by (rule mult_le_mono2)
    then show ?thesis by (simp add: member_address_def)
  qed
qed

text \<open>
  Claim C4. After a value is written through the accessor of member \<open>k\<close> at valid
  indices, reading through the same accessor at the same indices returns the value;
  reading any other member at any valid indices, or the same member at other valid
  indices, returns what the block held before the write. This holds for both layouts.
\<close>

theorem accessor_round_trip:
  assumes "valid_access L fs k idx n" and "length v = scalar_size (fs ! k)"
  shows "read_member layout L fs (write_member layout L fs b k idx n v) k idx n = v
    \<and> (\<forall>k' idx' n'. valid_access L fs k' idx' n' \<and> k' \<noteq> k \<longrightarrow>
          read_member layout L fs (write_member layout L fs b k idx n v) k' idx' n'
            = read_member layout L fs b k' idx' n')
    \<and> (\<forall>idx' n'. valid_access L fs k idx' n' \<and> (idx', n') \<noteq> (idx, n) \<longrightarrow>
          read_member layout L fs (write_member layout L fs b k idx n v) k idx' n'
            = read_member layout L fs b k idx' n')"
proof (intro conjI allI impI)
  show "read_member layout L fs (write_member layout L fs b k idx n v) k idx n = v"
    using load_store_same [of b "member_address layout L fs k idx n" v] assms(2)
    by (simp add: read_member_def write_member_def)
next
  fix k' idx' n'
  assume "valid_access L fs k' idx' n' \<and> k' \<noteq> k"
  then have "member_address layout L fs k' idx' n' + scalar_size (fs ! k')
            \<le> member_address layout L fs k idx n
         \<or> member_address layout L fs k idx n + length v
            \<le> member_address layout L fs k' idx' n'"
    using members_do_not_overlap [OF assms(1), of k' idx' n' layout] assms(2) by simp
  then show "read_member layout L fs (write_member layout L fs b k idx n v) k' idx' n'
            = read_member layout L fs b k' idx' n'"
    unfolding read_member_def write_member_def by (rule load_store_other)
next
  fix idx' n'
  assume "valid_access L fs k idx' n' \<and> (idx', n') \<noteq> (idx, n)"
  then have "member_address layout L fs k idx' n' + scalar_size (fs ! k)
            \<le> member_address layout L fs k idx n
         \<or> member_address layout L fs k idx n + length v
            \<le> member_address layout L fs k idx' n'"
    using elements_do_not_overlap [OF assms(1), of idx' n' layout] assms(2) by simp
  then show "read_member layout L fs (write_member layout L fs b k idx n v) k idx' n'
            = read_member layout L fs b k idx' n'"
    unfolding read_member_def write_member_def by (rule load_store_other)
qed


theorem accessor_round_trip_witness:
  "valid_access 4 test_fields 6 [1, 1, 1, 1] 2
   \<and> length [1, 2, 3, 4, 5, 6, 7, 8 :: 8 word] = scalar_size (test_fields ! 6)
   \<and> valid_access 4 test_fields 0 [] 3
   \<and> read_member LayoutRight 4 test_fields
         (write_member LayoutRight 4 test_fields (\<lambda>a. 0) 6 [1, 1, 1, 1] 2 [1, 2, 3, 4, 5, 6, 7, 8])
         6 [1, 1, 1, 1] 2 = [1, 2, 3, 4, 5, 6, 7, 8]
   \<and> read_member LayoutRight 4 test_fields
         (write_member LayoutRight 4 test_fields (\<lambda>a. 0) 6 [1, 1, 1, 1] 2 [1, 2, 3, 4, 5, 6, 7, 8])
         0 [] 3 = read_member LayoutRight 4 test_fields (\<lambda>a. 0) 0 [] 3
   \<and> read_member LayoutLeft 4 test_fields
         (write_member LayoutLeft 4 test_fields (\<lambda>a. 0) 6 [1, 1, 1, 1] 2 [1, 2, 3, 4, 5, 6, 7, 8])
         6 [1, 1, 1, 1] 2 = [1, 2, 3, 4, 5, 6, 7, 8]
   \<and> read_member LayoutLeft 4 test_fields
         (write_member LayoutLeft 4 test_fields (\<lambda>a. 0) 6 [1, 1, 1, 1] 2 [1, 2, 3, 4, 5, 6, 7, 8])
         0 [] 3 = read_member LayoutLeft 4 test_fields (\<lambda>a. 0) 0 [] 3"
proof -
  let ?v = "[1, 2, 3, 4, 5, 6, 7, 8 :: 8 word]"
  have a: "valid_access 4 test_fields 6 [1, 1, 1, 1] 2" by code_simp
  have l: "length ?v = scalar_size (test_fields ! 6)" by code_simp
  have a0: "valid_access 4 test_fields 0 [] 3" by code_simp
  have ne: "(0 :: nat) \<noteq> 6" by simp
  note r = accessor_round_trip [OF a l, of LayoutRight "\<lambda>a. 0"]
  note f = accessor_round_trip [OF a l, of LayoutLeft "\<lambda>a. 0"]
  have r1: "read_member LayoutRight 4 test_fields
         (write_member LayoutRight 4 test_fields (\<lambda>a. 0) 6 [1, 1, 1, 1] 2 ?v) 6 [1, 1, 1, 1] 2 = ?v"
    using r by (rule conjunct1)
  have r2: "read_member LayoutRight 4 test_fields
         (write_member LayoutRight 4 test_fields (\<lambda>a. 0) 6 [1, 1, 1, 1] 2 ?v) 0 [] 3
        = read_member LayoutRight 4 test_fields (\<lambda>a. 0) 0 [] 3"
    using r a0 ne by blast
  have f1: "read_member LayoutLeft 4 test_fields
         (write_member LayoutLeft 4 test_fields (\<lambda>a. 0) 6 [1, 1, 1, 1] 2 ?v) 6 [1, 1, 1, 1] 2 = ?v"
    using f by (rule conjunct1)
  have f2: "read_member LayoutLeft 4 test_fields
         (write_member LayoutLeft 4 test_fields (\<lambda>a. 0) 6 [1, 1, 1, 1] 2 ?v) 0 [] 3
        = read_member LayoutLeft 4 test_fields (\<lambda>a. 0) 0 [] 3"
    using f a0 ne by blast
  show ?thesis using a l a0 r1 r2 f1 f2 by blast
qed


end
